theory Spec2Isabelle
  imports Complex_Main
begin

section \<open>The Zendesk agent-status monitor of SlackBot.py\<close>

text \<open>
  The development embeds \<^verbatim>\<open>ZendeskMonitor\<close> (its fields, \<^verbatim>\<open>get_agents\<close>,
  \<^verbatim>\<open>get_agent_availability\<close>, the body of the \<^verbatim>\<open>while True\<close> loop of
  \<^verbatim>\<open>monitor_agents\<close>) and the Slack action handler \<^verbatim>\<open>handle_acknowledgment\<close>.

  Conventions of the embedding:
  \<^item> a \<^verbatim>\<open>datetime\<close> is a real number of seconds, so that the difference of two of them
    is what \<^verbatim>\<open>total_seconds()\<close> returns;
  \<^item> the HTTP requests are inputs of a cycle: what the users endpoint answers, and what the
    availability endpoint answers for each agent id during that cycle;
  \<^item> a raised exception is a value; a \<^verbatim>\<open>KeyError\<close> carries the missing key;
  \<^item> calls to \<^verbatim>\<open>send_slack_alert\<close> are collected in a list, in call order; that
    function catches every exception of its own, so a call always returns;
  \<^item> calls to \<^verbatim>\<open>logger\<close> are left out: they change no state the monitor reads.
\<close>

subsection \<open>Data\<close>

type_synonym datetime = real

datatype error = KeyError string | SlackError

text \<open>
  The answer of one HTTP request followed by \<^verbatim>\<open>response.json().get(key, default)\<close>:
  the request raised a \<^verbatim>\<open>RequestException\<close>, or it returned a JSON object in which the
  key is absent (\<open>Json None\<close>) or present.
\<close>

datatype 'a response = RequestException | Json "'a option"

text \<open>
  One element of the \<^verbatim>\<open>users\<close> list. A field is \<open>None\<close> when the dictionary has
  no such key, so that \<^verbatim>\<open>agent['id']\<close> raises.
\<close>

record agent =
  agent_id :: "int option"
  agent_name :: "string option"

text \<open>The \<^verbatim>\<open>availability\<close> dictionary; the empty dictionary is \<open>[]\<close>.\<close>

type_synonym availability = "(string \<times> string) list"

text \<open>The fields of \<^verbatim>\<open>ZendeskMonitor\<close> that the monitoring loop reads or writes.\<close>

record zendesk_monitor =
  check_interval :: real
  alert_threshold :: real
  agent_status_times :: "int \<rightharpoonup> datetime"
  alerted_agents :: "int set"
  excluded_agents :: "int set"

text \<open>What one iteration of the loop gets from outside.\<close>

record cycle_input =
  now :: datetime
  users_response :: "agent list response"
  availability_response :: "int \<Rightarrow> availability response"

text \<open>
  The state of the \<^verbatim>\<open>for agent in agents\<close> loop: \<^verbatim>\<open>self\<close>, the local list
  \<^verbatim>\<open>transfers_only_agents\<close>, and the calls made to \<^verbatim>\<open>send_slack_alert\<close>.
\<close>

type_synonym loop_state = "zendesk_monitor \<times> (string \<times> real) list \<times> (string \<times> int) list"

text \<open>
  What one iteration leaves behind: \<^verbatim>\<open>self\<close>, the list handed to
  \<^verbatim>\<open>print_status_summary\<close> (\<open>None\<close> when it is not called), the alerts sent, and the
  exception that left the iteration, if any.
\<close>

record cycle_result =
  monitor_after :: zendesk_monitor
  summary :: "(string \<times> real) list option"
  alerts :: "(string \<times> int) list"
  raised :: "error option"

subsection \<open>Operations\<close>

text \<open>Python's \<^verbatim>\<open>int(x)\<close> on a float: truncation towards zero.\<close>

definition py_int :: "real \<Rightarrow> int" where
  "py_int x = (if 0 \<le> x then \<lfloor>x\<rfloor> else \<lceil>x\<rceil>)"

text \<open>\<^verbatim>\<open>ZendeskMonitor.__init__\<close> with \<^verbatim>\<open>EXCLUDED_AGENTS\<close> parsed to the given set.\<close>

definition init_monitor :: "int set \<Rightarrow> zendesk_monitor" where
  "init_monitor excluded =
     \<lparr>check_interval = 60, alert_threshold = 600, agent_status_times = Map.empty,
      alerted_agents = {}, excluded_agents = excluded\<rparr>"

definition get_agents :: "agent list response \<Rightarrow> agent list" where
  "get_agents r = (case r of RequestException \<Rightarrow> [] | Json None \<Rightarrow> [] | Json (Some us) \<Rightarrow> us)"

definition get_agent_availability :: "(int \<Rightarrow> availability response) \<Rightarrow> int \<Rightarrow> availability" where
  "get_agent_availability srv aid =
     (case srv aid of RequestException \<Rightarrow> [] | Json None \<Rightarrow> [] | Json (Some a) \<Rightarrow> a)"

text \<open>The body of \<^verbatim>\<open>for agent in agents\<close>, lines 310 to 338.\<close>

definition process_agent :: "cycle_input \<Rightarrow> agent \<Rightarrow> loop_state \<Rightarrow> error + loop_state" where
  "process_agent inp a ls =
     (case ls of (self, transfers_only_agents, sent) \<Rightarrow>
      (case agent_id a of
         None \<Rightarrow> Inl (KeyError ''id'')
       | Some aid \<Rightarrow>
           if aid \<in> excluded_agents self then Inr ls
           else
             (case agent_name a of
                None \<Rightarrow> Inl (KeyError ''name'')
              | Some aname \<Rightarrow>
                  let availability = get_agent_availability (availability_response inp) aid in
                  if availability \<noteq> [] then
                    if map_of availability ''agent_state'' = Some ''transfers_only'' then
                      let self1 =
                            (if agent_status_times self aid = None
                             then self\<lparr>agent_status_times := (agent_status_times self)(aid \<mapsto> now inp),
                                       alerted_agents := alerted_agents self - {aid}\<rparr>
                             else self)
                      in (case agent_status_times self1 aid of
                            None \<Rightarrow> Inl (KeyError ''agent_status_times'')
                          | Some started \<Rightarrow>
                              let duration = now inp - started;
                                  transfers_only_agents1 = transfers_only_agents @ [(aname, duration)]
                              in if duration \<ge> alert_threshold self1 \<and> aid \<notin> alerted_agents self1
                                 then Inr (self1\<lparr>alerted_agents := insert aid (alerted_agents self1)\<rparr>,
                                           transfers_only_agents1,
                                           sent @ [(aname, py_int duration)])
                                 else Inr (self1, transfers_only_agents1, sent))
                    else
                      Inr (self\<lparr>agent_status_times := (agent_status_times self)(aid := None),
                                alerted_agents := alerted_agents self - {aid}\<rparr>,
                           transfers_only_agents, sent)
                  else Inr ls)))"

text \<open>
  The \<^verbatim>\<open>for\<close> loop: an exception leaves the loop at the record that raised it, with the
  state the earlier records produced.
\<close>

fun for_agents :: "cycle_input \<Rightarrow> agent list \<Rightarrow> loop_state \<Rightarrow> error option \<times> loop_state" where
  "for_agents inp [] ls = (None, ls)"
| "for_agents inp (a # as) ls =
     (case process_agent inp a ls of
        Inl e \<Rightarrow> (Some e, ls)
      | Inr ls' \<Rightarrow> for_agents inp as ls')"

text \<open>
  One iteration of \<^verbatim>\<open>while True\<close>, lines 304 to 342. \<^verbatim>\<open>sort(key=..., reverse=True)\<close>
  is stable and descending, which is the stable ascending sort on the negated key.
\<close>

definition monitor_cycle :: "zendesk_monitor \<Rightarrow> cycle_input \<Rightarrow> cycle_result" where
  "monitor_cycle self inp =
     (let agents = get_agents (users_response inp) in
      if agents \<noteq> [] then
        (case for_agents inp agents (self, [], []) of
           (Some e, (self', transfers_only_agents, sent)) \<Rightarrow>
             \<lparr>monitor_after = self', summary = None, alerts = sent, raised = Some e\<rparr>
         | (None, (self', transfers_only_agents, sent)) \<Rightarrow>
             \<lparr>monitor_after = self',
              summary = Some (sort_key (\<lambda>x. - snd x) transfers_only_agents),
              alerts = sent, raised = None\<rparr>)
      else \<lparr>monitor_after = self, summary = None, alerts = [], raised = None\<rparr>)"

text \<open>
  The loop of \<^verbatim>\<open>monitor_agents\<close>, run on the inputs of finitely many iterations. The
  loop itself never ends; what is returned is the exception that ended it within these
  iterations (if one did), \<^verbatim>\<open>self\<close> at that point, and the result of every iteration
  that was started.
\<close>

fun monitor_agents ::
  "zendesk_monitor \<Rightarrow> cycle_input list \<Rightarrow> error option \<times> zendesk_monitor \<times> cycle_result list" where
  "monitor_agents self [] = (None, self, [])"
| "monitor_agents self (inp # inps) =
     (let r = monitor_cycle self inp in
      case raised r of
        Some e \<Rightarrow> (Some e, monitor_after r, [r])
      | None \<Rightarrow>
          (case monitor_agents (monitor_after r) inps of
             (e, self', rs) \<Rightarrow> (e, self', r # rs)))"

text \<open>The list of the status summary; empty when no summary was printed.\<close>

definition active :: "cycle_result \<Rightarrow> (string \<times> real) list" where
  "active r = (case summary r of None \<Rightarrow> [] | Some xs \<Rightarrow> xs)"

subsection \<open>The acknowledgment handler\<close>

text \<open>
  The fields \<^verbatim>\<open>handle_acknowledgment\<close> reads from the action payload; \<open>None\<close> when the
  path is absent from the payload, so that reading it raises.
\<close>

record ack_body =
  action_value :: "string option"
  user_id :: "string option"
  channel_id :: "string option"
  message_ts :: "string option"

datatype slack_call =
    ChatPostMessage string string string
  | ChatUpdate string string string

text \<open>
  The process state the handler runs in: the module-level \<^verbatim>\<open>zendesk_monitor\<close> and the
  calls the Slack client has accepted.
\<close>

record app_state =
  the_monitor :: zendesk_monitor
  slack_calls :: "slack_call list"

text \<open>
  The \<^verbatim>\<open>try\<close> block, lines 491 to 514. \<open>ack_ok\<close> tells whether \<^verbatim>\<open>ack()\<close> returns,
  \<open>client_ok\<close> whether the Slack client accepts a call. The message texts are kept
  without their leading emoji.
\<close>

definition acknowledgment_try ::
  "bool \<Rightarrow> (slack_call \<Rightarrow> bool) \<Rightarrow> ack_body \<Rightarrow> app_state \<Rightarrow> (error \<times> app_state) + app_state" where
  "acknowledgment_try ack_ok client_ok body s =
     (if \<not> ack_ok then Inl (SlackError, s)
      else case action_value body of
        None \<Rightarrow> Inl (KeyError ''actions'', s)
      | Some aname \<Rightarrow>
       (case user_id body of
          None \<Rightarrow> Inl (KeyError ''user'', s)
        | Some user \<Rightarrow>
         (case channel_id body of
            None \<Rightarrow> Inl (KeyError ''channel'', s)
          | Some channel \<Rightarrow>
           (case message_ts body of
              None \<Rightarrow> Inl (KeyError ''message'', s)
            | Some ts \<Rightarrow>
               let post = ChatPostMessage channel ts (''Alert acknowledged by <@'' @ user @ ''>'');
                   upd = ChatUpdate channel ts
                           (''Alert: Agent '' @ aname @
                            '' has been in Transfers Only status for 10 minutes.'')
               in if \<not> client_ok post then Inl (SlackError, s)
                  else
                    let s1 = s\<lparr>slack_calls := slack_calls s @ [post]\<rparr> in
                    if \<not> client_ok upd then Inl (SlackError, s1)
                    else Inr (s1\<lparr>slack_calls := slack_calls s1 @ [upd]\<rparr>)))))"

text \<open>
  The handler: \<^verbatim>\<open>except Exception\<close> logs the error and returns. \<open>Inl\<close> would be an
  exception leaving the handler.
\<close>

definition handle_acknowledgment ::
  "bool \<Rightarrow> (slack_call \<Rightarrow> bool) \<Rightarrow> ack_body \<Rightarrow> app_state \<Rightarrow> error + app_state" where
  "handle_acknowledgment ack_ok client_ok body s =
     (case acknowledgment_try ack_ok client_ok body s of
        Inl (e, s') \<Rightarrow> Inr s'
      | Inr s' \<Rightarrow> Inr s')"

subsection \<open>Predicates on the inputs of a cycle\<close>

text \<open>
  A record the loop body gets through without a \<^verbatim>\<open>KeyError\<close>: it has an
  \<^verbatim>\<open>id\<close>, and a \<^verbatim>\<open>name\<close> unless the id is excluded (line 313 skips the record
  before line 315 reads the name).
\<close>

definition well_formed :: "zendesk_monitor \<Rightarrow> agent \<Rightarrow> bool" where
  "well_formed self a =
     (case agent_id a of
        None \<Rightarrow> False
      | Some aid \<Rightarrow> aid \<in> excluded_agents self \<or> agent_name a \<noteq> None)"

text \<open>The tests of lines 318 and 321 on what the availability endpoint answers for an id.\<close>

definition in_transfers_only :: "cycle_input \<Rightarrow> int \<Rightarrow> bool" where
  "in_transfers_only inp i =
     (let availability = get_agent_availability (availability_response inp) i
      in availability \<noteq> [] \<and> map_of availability ''agent_state'' = Some ''transfers_only'')"

definition in_other_state :: "cycle_input \<Rightarrow> int \<Rightarrow> bool" where
  "in_other_state inp i =
     (let availability = get_agent_availability (availability_response inp) i
      in availability \<noteq> [] \<and> map_of availability ''agent_state'' \<noteq> Some ''transfers_only'')"

text \<open>The snapshot of a cycle has a record with this id.\<close>

definition listed :: "cycle_input \<Rightarrow> int \<Rightarrow> bool" where
  "listed inp i = (\<exists>a \<in> set (get_agents (users_response inp)). agent_id a = Some i)"

text \<open>
  The start of the episode an agent is in when a cycle sees it in transfers_only: the
  recorded one, or the time of this cycle when none is recorded.
\<close>

definition started_at :: "zendesk_monitor \<Rightarrow> cycle_input \<Rightarrow> int \<Rightarrow> datetime" where
  "started_at self inp i = (case agent_status_times self i of None \<Rightarrow> now inp | Some t \<Rightarrow> t)"

text \<open>The snapshot of a cycle without the records of one id, or of the excluded ids.\<close>

definition without_agent :: "int \<Rightarrow> cycle_input \<Rightarrow> cycle_input" where
  "without_agent i inp =
     inp\<lparr>users_response :=
           Json (Some (filter (\<lambda>a. agent_id a \<noteq> Some i) (get_agents (users_response inp))))\<rparr>"

definition without_excluded :: "zendesk_monitor \<Rightarrow> cycle_input \<Rightarrow> cycle_input" where
  "without_excluded self inp =
     inp\<lparr>users_response :=
           Json (Some (filter (\<lambda>a. case agent_id a of None \<Rightarrow> True
                                    | Some aid \<Rightarrow> aid \<notin> excluded_agents self)
                         (get_agents (users_response inp))))\<rparr>"

subsection \<open>Sample inputs\<close>

definition mk_agent :: "int \<Rightarrow> string \<Rightarrow> agent" where
  "mk_agent i n = \<lparr>agent_id = Some i, agent_name = Some n\<rparr>"

definition transfers_only_reply :: "availability response" where
  "transfers_only_reply = Json (Some [(''agent_state'', ''transfers_only'')])"

definition online_reply :: "availability response" where
  "online_reply = Json (Some [(''agent_state'', ''online'')])"

text \<open>A cycle at time \<open>t\<close> whose snapshot is \<open>us\<close> and where every lookup answers \<open>r\<close>.\<close>

definition poll :: "datetime \<Rightarrow> agent list \<Rightarrow> availability response \<Rightarrow> cycle_input" where
  "poll t us r = \<lparr>now = t, users_response = Json (Some us), availability_response = (\<lambda>_. r)\<rparr>"

text \<open>A cycle at time \<open>t\<close> in which the users request fails.\<close>

definition failed_poll :: "datetime \<Rightarrow> cycle_input" where
  "failed_poll t =
     \<lparr>now = t, users_response = RequestException, availability_response = (\<lambda>_. RequestException)\<rparr>"

text \<open>
  The scenario of the specification: agent A (id 1) is in transfers_only from time 0 on,
  and the loop polls every 60 seconds; these are its first \<open>n\<close> cycles.
\<close>

definition scenario_polls :: "nat \<Rightarrow> cycle_input list" where
  "scenario_polls n = map (\<lambda>k. poll (60 * real k) [mk_agent 1 ''A''] transfers_only_reply) [0..<n]"

text \<open>A monitor that tracks agent 7 since time 0 and has alerted for it.\<close>

definition tracking_7 :: zendesk_monitor where
  "tracking_7 = (init_monitor {})\<lparr>agent_status_times := [7 \<mapsto> 0], alerted_agents := {7}\<rparr>"

text \<open>
  What the scenario leads to: \<^verbatim>\<open>self\<close> after \<open>n\<close> cycles, and the result of cycle
  \<open>k\<close> (counted from 0, so at time \<open>60 * k\<close>).
\<close>

definition scenario_monitor :: "nat \<Rightarrow> zendesk_monitor" where
  "scenario_monitor n =
     (if n = 0 then init_monitor {}
      else (init_monitor {})\<lparr>agent_status_times := [1 \<mapsto> 0],
                              alerted_agents := (if 10 < n then {1} else {})\<rparr>)"

definition scenario_report :: "nat \<Rightarrow> cycle_result" where
  "scenario_report k =
     \<lparr>monitor_after = scenario_monitor (Suc k),
      summary = Some [(''A'', 60 * real k)],
      alerts = (if k = 10 then [(''A'', 600)] else []),
      raised = None\<rparr>"


subsection \<open>Counting the alerts sent for one agent\<close>

text \<open>
  \<^verbatim>\<open>send_slack_alert\<close> gets a name and a duration, no id. To speak of the alerts of one
  agent, these count the calls made while the loop body runs on a record with that id:
  in one pass of the \<^verbatim>\<open>for\<close> loop, in one cycle, and in a run of cycles.
\<close>

fun loop_alerts_for :: "int \<Rightarrow> cycle_input \<Rightarrow> agent list \<Rightarrow> loop_state \<Rightarrow> nat" where
  "loop_alerts_for i inp [] ls = 0"
| "loop_alerts_for i inp (a # as) ls =
     (case process_agent inp a ls of
        Inl e \<Rightarrow> 0
      | Inr ls' \<Rightarrow>
          (if agent_id a = Some i then length (snd (snd ls')) - length (snd (snd ls)) else 0)
          + loop_alerts_for i inp as ls')"

definition cycle_alerts_for :: "int \<Rightarrow> zendesk_monitor \<Rightarrow> cycle_input \<Rightarrow> nat" where
  "cycle_alerts_for i self inp =
     loop_alerts_for i inp (get_agents (users_response inp)) (self, [], [])"

fun run_alerts_for :: "int \<Rightarrow> zendesk_monitor \<Rightarrow> cycle_input list \<Rightarrow> nat" where
  "run_alerts_for i self [] = 0"
| "run_alerts_for i self (inp # inps) =
     cycle_alerts_for i self inp +
     (case raised (monitor_cycle self inp) of
        None \<Rightarrow> run_alerts_for i (monitor_after (monitor_cycle self inp)) inps
      | Some e \<Rightarrow> 0)"

text \<open>
  The test of line 330 as seen before the record is processed: no alert is outstanding
  for the episode (a new episode clears the ledger entry, line 324) and the duration has
  reached the threshold.
\<close>

definition armed :: "zendesk_monitor \<Rightarrow> cycle_input \<Rightarrow> int \<Rightarrow> bool" where
  "armed self inp i =
     ((agent_status_times self i = None \<or> i \<notin> alerted_agents self) \<and>
      alert_threshold self \<le> now inp - started_at self inp i)"

text \<open>An episode is recorded for the agent and the agent is in the ledger.\<close>

definition suppressed :: "zendesk_monitor \<Rightarrow> int \<Rightarrow> bool" where
  "suppressed self i = (agent_status_times self i \<noteq> None \<and> i \<in> alerted_agents self)"


section \<open>Properties\<close>

subsection \<open>One record\<close>

lemma process_agent_config:
  "process_agent inp a (s, t, al) = Inr (s', t', al') \<Longrightarrow>
   excluded_agents s' = excluded_agents s \<and> alert_threshold s' = alert_threshold s
   \<and> check_interval s' = check_interval s"
  by (auto simp: process_agent_def Let_def split: option.splits if_splits)

lemma process_agent_frame:
  "process_agent inp a (s, t, al) = Inr (s', t', al') \<Longrightarrow> agent_id a \<noteq> Some i \<Longrightarrow>
   agent_status_times s' i = agent_status_times s i \<and>
   (i \<in> alerted_agents s' \<longleftrightarrow> i \<in> alerted_agents s)"
  by (auto simp: process_agent_def Let_def split: option.splits if_splits)

lemma process_agent_invariant:
  "process_agent inp a (s, t, al) = Inr (s', t', al') \<Longrightarrow>
   alerted_agents s \<subseteq> dom (agent_status_times s) \<Longrightarrow>
   alerted_agents s' \<subseteq> dom (agent_status_times s')"
  by (auto simp: process_agent_def Let_def split: option.splits if_splits)

subsection \<open>The loop over the snapshot\<close>

lemma for_agents_config:
  "for_agents inp as (s, t, al) = (e, s', t', al') \<Longrightarrow>
   excluded_agents s' = excluded_agents s \<and> alert_threshold s' = alert_threshold s
   \<and> check_interval s' = check_interval s"
proof (induction as arbitrary: s t al)
  case Nil
  then show ?case by simp
next
  case (Cons a as)
  show ?case
  proof (cases "process_agent inp a (s, t, al)")
    case (Inl x)
    with Cons.prems show ?thesis by simp
  next
    case (Inr ls)
    obtain s1 t1 al1 where ls: "ls = (s1, t1, al1)" by (cases ls) auto
    from Cons.prems Inr ls have "for_agents inp as (s1, t1, al1) = (e, s', t', al')" by simp
    from Cons.IH[OF this] process_agent_config[OF Inr[unfolded ls]] show ?thesis by simp
  qed
qed

lemma for_agents_frame:
  "for_agents inp as (s, t, al) = (e, s', t', al') \<Longrightarrow>
   \<forall>a \<in> set as. agent_id a \<noteq> Some i \<Longrightarrow>
   agent_status_times s' i = agent_status_times s i \<and>
   (i \<in> alerted_agents s' \<longleftrightarrow> i \<in> alerted_agents s)"
proof (induction as arbitrary: s t al)
  case Nil
  then show ?case by simp
next
  case (Cons a as)
  show ?case
  proof (cases "process_agent inp a (s, t, al)")
    case (Inl x)
    with Cons.prems show ?thesis by simp
  next
    case (Inr ls)
    obtain s1 t1 al1 where ls: "ls = (s1, t1, al1)" by (cases ls) auto
    from Cons.prems Inr ls have r: "for_agents inp as (s1, t1, al1) = (e, s', t', al')" by simp
    from Cons.prems have n: "agent_id a \<noteq> Some i" "\<forall>a \<in> set as. agent_id a \<noteq> Some i"
      by simp_all
    from Cons.IH[OF r n(2)] process_agent_frame[OF Inr[unfolded ls] n(1)] show ?thesis by simp
  qed
qed

lemma for_agents_invariant:
  "for_agents inp as (s, t, al) = (e, s', t', al') \<Longrightarrow>
   alerted_agents s \<subseteq> dom (agent_status_times s) \<Longrightarrow>
   alerted_agents s' \<subseteq> dom (agent_status_times s')"
proof (induction as arbitrary: s t al)
  case Nil
  then show ?case by simp
next
  case (Cons a as)
  show ?case
  proof (cases "process_agent inp a (s, t, al)")
    case (Inl x)
    with Cons.prems show ?thesis by simp
  next
    case (Inr ls)
    obtain s1 t1 al1 where ls: "ls = (s1, t1, al1)" by (cases ls) auto
    from Cons.prems Inr ls have r: "for_agents inp as (s1, t1, al1) = (e, s', t', al')" by simp
    from Cons.IH[OF r process_agent_invariant[OF Inr[unfolded ls] Cons.prems(2)]]
    show ?thesis .
  qed
qed

subsection \<open>One cycle and the run\<close>

lemma monitor_cycle_config:
  "excluded_agents (monitor_after (monitor_cycle m inp)) = excluded_agents m \<and>
   alert_threshold (monitor_after (monitor_cycle m inp)) = alert_threshold m \<and>
   check_interval (monitor_after (monitor_cycle m inp)) = check_interval m"
proof (cases "for_agents inp (get_agents (users_response inp)) (m, [], [])")
  case (fields e s t al)
  from for_agents_config[OF fields] show ?thesis
    by (cases e) (simp_all add: monitor_cycle_def Let_def fields)
qed

lemma monitor_cycle_invariant:
  assumes "alerted_agents m \<subseteq> dom (agent_status_times m)"
  shows "alerted_agents (monitor_after (monitor_cycle m inp))
           \<subseteq> dom (agent_status_times (monitor_after (monitor_cycle m inp)))"
proof (cases "for_agents inp (get_agents (users_response inp)) (m, [], [])")
  case (fields e s t al)
  from for_agents_invariant[OF fields assms] assms show ?thesis
    by (cases e) (simp_all add: monitor_cycle_def Let_def fields)
qed

lemma monitor_agents_invariant:
  "alerted_agents m \<subseteq> dom (agent_status_times m) \<Longrightarrow>
   monitor_agents m inps = (e, m', rs) \<Longrightarrow>
   alerted_agents m' \<subseteq> dom (agent_status_times m') \<and>
   (\<forall>r \<in> set rs. alerted_agents (monitor_after r) \<subseteq> dom (agent_status_times (monitor_after r)))"
proof (induction inps arbitrary: m e m' rs)
  case Nil
  then show ?case by simp
next
  case (Cons inp inps)
  let ?r = "monitor_cycle m inp"
  have inv: "alerted_agents (monitor_after ?r) \<subseteq> dom (agent_status_times (monitor_after ?r))"
    using Cons.prems(1) by (rule monitor_cycle_invariant)
  show ?case
  proof (cases "raised ?r")
    case (Some x)
    with Cons.prems(2) inv show ?thesis by (auto simp: Let_def)
  next
    case None
    obtain e1 m1 rs1 where rest: "monitor_agents (monitor_after ?r) inps = (e1, m1, rs1)"
      by (cases "monitor_agents (monitor_after ?r) inps") auto
    from Cons.prems(2) None rest have eq: "m' = m1" "rs = ?r # rs1" by (auto simp: Let_def)
    from Cons.IH[OF inv rest] inv eq show ?thesis by simp
  qed
qed

lemma monitor_cycle_poll_A:
  "monitor_cycle m (poll t [mk_agent 1 ''A''] transfers_only_reply) =
     (if 1 \<in> excluded_agents m
      then \<lparr>monitor_after = m, summary = Some [], alerts = [], raised = None\<rparr>
      else
        let self1 = (if agent_status_times m 1 = None
                     then m\<lparr>agent_status_times := (agent_status_times m)(1 \<mapsto> t),
                            alerted_agents := alerted_agents m - {1}\<rparr>
                     else m);
            d = t - started_at m (poll t [mk_agent 1 ''A''] transfers_only_reply) 1
        in if d \<ge> alert_threshold m \<and> 1 \<notin> alerted_agents self1
           then \<lparr>monitor_after = self1\<lparr>alerted_agents := insert 1 (alerted_agents self1)\<rparr>,
                 summary = Some [(''A'', d)], alerts = [(''A'', py_int d)], raised = None\<rparr>
           else \<lparr>monitor_after = self1, summary = Some [(''A'', d)], alerts = [],
                 raised = None\<rparr>)"
  by (auto simp: monitor_cycle_def poll_def mk_agent_def transfers_only_reply_def get_agents_def
        process_agent_def get_agent_availability_def started_at_def Let_def
        split: option.splits)

subsection \<open>Records in transfers_only, records in another state\<close>

lemma process_agent_raises:
  "(\<exists>e. process_agent inp a (s, t, al) = Inl e) \<longleftrightarrow> \<not> well_formed s a"
  by (auto simp: process_agent_def well_formed_def Let_def split: option.splits if_splits)

lemma process_agent_mono:
  "process_agent inp a (s, t, al) = Inr (s', t', al') \<Longrightarrow> set t \<subseteq> set t' \<and> set al \<subseteq> set al'"
  by (auto simp: process_agent_def Let_def split: option.splits if_splits)

lemma process_agent_watched:
  assumes "process_agent inp a (s, t, al) = Inr (s', t', al')"
      and "agent_id a = Some i" and "i \<notin> excluded_agents s" and "in_transfers_only inp i"
  shows "agent_status_times s' i = Some (started_at s inp i)"
    and "\<exists>n. agent_name a = Some n \<and> (n, now inp - started_at s inp i) \<in> set t'"
    and "i \<in> alerted_agents s' \<longleftrightarrow>
           (agent_status_times s i \<noteq> None \<and> i \<in> alerted_agents s) \<or>
           now inp - started_at s inp i \<ge> alert_threshold s"
    and "(agent_status_times s i = None \<or> i \<notin> alerted_agents s) \<Longrightarrow>
         now inp - started_at s inp i \<ge> alert_threshold s \<Longrightarrow>
         \<exists>n. agent_name a = Some n \<and> (n, py_int (now inp - started_at s inp i)) \<in> set al'"
  using assms
  by (auto simp: process_agent_def in_transfers_only_def started_at_def Let_def
           split: option.splits if_splits)

lemma process_agent_other:
  assumes "process_agent inp a (s, t, al) = Inr (s', t', al')"
      and "agent_id a = Some i" and "i \<notin> excluded_agents s" and "in_other_state inp i"
  shows "agent_status_times s' i = None \<and> i \<notin> alerted_agents s'"
  using assms
  by (auto simp: process_agent_def in_other_state_def Let_def
           split: option.splits if_splits)

lemma process_agent_keeps_start:
  assumes "process_agent inp a (s, t, al) = Inr (s', t', al')"
      and "in_transfers_only inp i" and "agent_status_times s i = Some x"
  shows "agent_status_times s' i = Some x"
  using assms
  by (auto simp: process_agent_def in_transfers_only_def Let_def split: option.splits if_splits)

lemma process_agent_keeps_none:
  assumes "process_agent inp a (s, t, al) = Inr (s', t', al')"
      and "in_other_state inp i" and "agent_status_times s i = None" and "i \<notin> alerted_agents s"
  shows "agent_status_times s' i = None \<and> i \<notin> alerted_agents s'"
  using assms
  by (auto simp: process_agent_def in_other_state_def Let_def split: option.splits if_splits)

lemma well_formed_cong:
  "excluded_agents s1 = excluded_agents s \<Longrightarrow> well_formed s1 b = well_formed s b"
  by (cases "agent_id b") (simp_all add: well_formed_def)

lemma for_agents_raises:
  "fst (for_agents inp as (s, t, al)) = None \<longleftrightarrow> (\<forall>a \<in> set as. well_formed s a)"
proof (induction as arbitrary: s t al)
  case Nil
  then show ?case by simp
next
  case (Cons a as)
  show ?case
  proof (cases "process_agent inp a (s, t, al)")
    case (Inl x)
    then have "\<not> well_formed s a" using process_agent_raises[of inp a s t al] by auto
    with Inl show ?thesis by simp
  next
    case (Inr ls)
    obtain s1 t1 al1 where ls: "ls = (s1, t1, al1)" by (cases ls) auto
    have wf: "well_formed s a" using process_agent_raises[of inp a s t al] Inr by auto
    have ex: "excluded_agents s1 = excluded_agents s"
      using process_agent_config[OF Inr[unfolded ls]] by simp
    show ?thesis using Cons.IH[of s1 t1 al1] Inr ls wf well_formed_cong[OF ex] by simp
  qed
qed

lemma for_agents_mono:
  "for_agents inp as (s, t, al) = (e, s', t', al') \<Longrightarrow> set t \<subseteq> set t' \<and> set al \<subseteq> set al'"
proof (induction as arbitrary: s t al)
  case Nil
  then show ?case by simp
next
  case (Cons a as)
  show ?case
  proof (cases "process_agent inp a (s, t, al)")
    case (Inl x)
    with Cons.prems show ?thesis by simp
  next
    case (Inr ls)
    obtain s1 t1 al1 where ls: "ls = (s1, t1, al1)" by (cases ls) auto
    from Cons.prems Inr ls have r: "for_agents inp as (s1, t1, al1) = (e, s', t', al')" by simp
    from Cons.IH[OF r] process_agent_mono[OF Inr[unfolded ls]] show ?thesis by blast
  qed
qed

lemma for_agents_keeps_start:
  "for_agents inp as (s, t, al) = (e, s', t', al') \<Longrightarrow> in_transfers_only inp i \<Longrightarrow>
   agent_status_times s i = Some x \<Longrightarrow> agent_status_times s' i = Some x"
proof (induction as arbitrary: s t al)
  case Nil
  then show ?case by simp
next
  case (Cons a as)
  show ?case
  proof (cases "process_agent inp a (s, t, al)")
    case (Inl x)
    with Cons.prems show ?thesis by simp
  next
    case (Inr ls)
    obtain s1 t1 al1 where ls: "ls = (s1, t1, al1)" by (cases ls) auto
    from Cons.prems Inr ls have r: "for_agents inp as (s1, t1, al1) = (e, s', t', al')" by simp
    from process_agent_keeps_start[OF Inr[unfolded ls] Cons.prems(2,3)]
    have "agent_status_times s1 i = Some x" .
    from Cons.IH[OF r Cons.prems(2) this] show ?thesis .
  qed
qed

lemma for_agents_watched:
  assumes "for_agents inp as (s, t, al) = (e, s', t', al')"
      and "in_transfers_only inp i" and "i \<notin> excluded_agents s"
      and "\<forall>a \<in> set as. well_formed s a"
  shows "((\<exists>a \<in> set as. agent_id a = Some i) \<longrightarrow>
           agent_status_times s' i = Some (started_at s inp i)) \<and>
         (\<forall>a \<in> set as. agent_id a = Some i \<longrightarrow>
           (\<exists>n. agent_name a = Some n \<and> (n, now inp - started_at s inp i) \<in> set t')) \<and>
         (i \<in> alerted_agents s' \<longleftrightarrow>
           (if \<exists>a \<in> set as. agent_id a = Some i
            then (agent_status_times s i \<noteq> None \<and> i \<in> alerted_agents s) \<or>
                 now inp - started_at s inp i \<ge> alert_threshold s
            else i \<in> alerted_agents s)) \<and>
         ((\<exists>a \<in> set as. agent_id a = Some i) \<longrightarrow>
          (agent_status_times s i = None \<or> i \<notin> alerted_agents s) \<longrightarrow>
          now inp - started_at s inp i \<ge> alert_threshold s \<longrightarrow>
          (\<exists>a \<in> set as. agent_id a = Some i \<and>
            (\<exists>n. agent_name a = Some n \<and> (n, py_int (now inp - started_at s inp i)) \<in> set al')))"
  using assms
proof (induction as arbitrary: s t al)
  case Nil
  then show ?case by simp
next
  case (Cons a as)
  have wfa: "well_formed s a" and wfas: "\<forall>b \<in> set as. well_formed s b"
    using Cons.prems(4) by simp_all
  obtain ls where Inr: "process_agent inp a (s, t, al) = Inr ls"
    using wfa process_agent_raises[of inp a s t al] by (cases "process_agent inp a (s, t, al)") auto
  obtain s1 t1 al1 where ls: "ls = (s1, t1, al1)" by (cases ls) auto
  note step = Inr[unfolded ls]
  from Cons.prems(1) step have r: "for_agents inp as (s1, t1, al1) = (e, s', t', al')" by simp
  note cfg = process_agent_config[OF step]
  have ex1: "i \<notin> excluded_agents s1" using cfg Cons.prems(3) by simp
  have wf1: "\<forall>b \<in> set as. well_formed s1 b" using wfas well_formed_cong[of s1 s] cfg by simp
  note mono = for_agents_mono[OF r]
  note IH = Cons.IH[OF r Cons.prems(2) ex1 wf1]
  show ?case
  proof (cases "agent_id a = Some i")
    case True
    note w = process_agent_watched[OF step True Cons.prems(3) Cons.prems(2)]
    have st1: "agent_status_times s1 i = Some (started_at s inp i)" by (rule w(1))
    then have sa: "started_at s1 inp i = started_at s inp i" by (simp add: started_at_def)
    have g1: "agent_status_times s' i = Some (started_at s inp i)"
      using for_agents_keeps_start[OF r Cons.prems(2) st1] .
    have g2: "\<forall>b \<in> set (a # as). agent_id b = Some i \<longrightarrow>
           (\<exists>n. agent_name b = Some n \<and> (n, now inp - started_at s inp i) \<in> set t')"
      using w(2) mono IH sa by auto
    have g3: "i \<in> alerted_agents s' \<longleftrightarrow>
           (agent_status_times s i \<noteq> None \<and> i \<in> alerted_agents s) \<or>
                 now inp - started_at s inp i \<ge> alert_threshold s"
      using IH w(3) st1 sa cfg by (auto split: if_splits)
    have g4: "(agent_status_times s i = None \<or> i \<notin> alerted_agents s) \<longrightarrow>
          now inp - started_at s inp i \<ge> alert_threshold s \<longrightarrow>
          (\<exists>n. agent_name a = Some n \<and> (n, py_int (now inp - started_at s inp i)) \<in> set al')"
      using w(4) mono by blast
    from g1 g2 g3 g4 True show ?thesis by auto
  next
    case False
    note fr = process_agent_frame[OF step False]
    have sa: "started_at s1 inp i = started_at s inp i" using fr by (simp add: started_at_def)
    have ex: "(\<exists>b \<in> set (a # as). agent_id b = Some i) \<longleftrightarrow> (\<exists>b \<in> set as. agent_id b = Some i)"
      using False by simp
    have all: "\<And>P. (\<forall>b \<in> set (a # as). agent_id b = Some i \<longrightarrow> P b) \<longleftrightarrow>
               (\<forall>b \<in> set as. agent_id b = Some i \<longrightarrow> P b)"
      using False by simp
    have ex2: "\<And>P. (\<exists>b \<in> set (a # as). agent_id b = Some i \<and> P b) \<longleftrightarrow>
               (\<exists>b \<in> set as. agent_id b = Some i \<and> P b)"
      using False by simp
    from IH show ?thesis
      unfolding ex all ex2 sa using fr cfg by simp
  qed
qed

lemma monitor_cycle_eq:
  assumes "for_agents inp (get_agents (users_response inp)) (m, [], []) = (e, s', t', al')"
  shows "monitor_after (monitor_cycle m inp) = s' \<and> alerts (monitor_cycle m inp) = al' \<and>
         raised (monitor_cycle m inp) = e \<and>
         active (monitor_cycle m inp) = (if e = None then sort_key (\<lambda>x. - snd x) t' else [])"
proof (cases "get_agents (users_response inp) = []")
  case True
  with assms show ?thesis by (auto simp: monitor_cycle_def active_def)
next
  case False
  with assms show ?thesis by (cases e) (simp_all add: monitor_cycle_def active_def)
qed

lemma monitor_cycle_raises:
  "raised (monitor_cycle m inp) = None \<longleftrightarrow>
     (\<forall>a \<in> set (get_agents (users_response inp)). well_formed m a)"
proof (cases "for_agents inp (get_agents (users_response inp)) (m, [], [])")
  case (fields e s t al)
  from monitor_cycle_eq[OF fields] for_agents_raises[of inp "get_agents (users_response inp)" m "[]" "[]"]
  show ?thesis by (simp add: fields)
qed

lemma monitor_agents_raises:
  "fst (monitor_agents m inps) = None \<longleftrightarrow>
     (\<forall>inp \<in> set inps. \<forall>a \<in> set (get_agents (users_response inp)). well_formed m a)"
proof (induction inps arbitrary: m)
  case Nil
  then show ?case by simp
next
  case (Cons inp inps)
  let ?r = "monitor_cycle m inp"
  show ?case
  proof (cases "raised ?r")
    case (Some x)
    then have "\<not> (\<forall>a \<in> set (get_agents (users_response inp)). well_formed m a)"
      using monitor_cycle_raises[of m inp] by simp
    with Some show ?thesis by (simp add: Let_def)
  next
    case None
    then have wf: "\<forall>a \<in> set (get_agents (users_response inp)). well_formed m a"
      using monitor_cycle_raises[of m inp] by simp
    have ex: "excluded_agents (monitor_after ?r) = excluded_agents m"
      using monitor_cycle_config[of m inp] by simp
    obtain e1 m1 rs1 where rest: "monitor_agents (monitor_after ?r) inps = (e1, m1, rs1)"
      by (cases "monitor_agents (monitor_after ?r) inps") auto
    have "fst (monitor_agents m (inp # inps)) = e1" using None rest by (simp add: Let_def)
    also have "e1 = None \<longleftrightarrow>
       (\<forall>inp \<in> set inps. \<forall>a \<in> set (get_agents (users_response inp)). well_formed m a)"
      using Cons.IH[of "monitor_after ?r"] rest well_formed_cong[OF ex] by simp
    finally show ?thesis using wf by simp
  qed
qed

lemma monitor_agents_length:
  "fst (monitor_agents m inps) = None \<Longrightarrow> length (snd (snd (monitor_agents m inps))) = length inps"
proof (induction inps arbitrary: m)
  case Nil
  then show ?case by simp
next
  case (Cons inp inps)
  let ?r = "monitor_cycle m inp"
  obtain e1 m1 rs1 where rest: "monitor_agents (monitor_after ?r) inps = (e1, m1, rs1)"
    by (cases "monitor_agents (monitor_after ?r) inps") auto
  show ?case
  proof (cases "raised ?r")
    case (Some x)
    with Cons.prems show ?thesis by (simp add: Let_def)
  next
    case None
    with Cons.prems rest have "e1 = None" by (simp add: Let_def)
    with Cons.IH[of "monitor_after ?r"] rest None show ?thesis by (simp add: Let_def)
  qed
qed


subsection \<open>Records the loop passes over\<close>

lemma for_agents_skip_excluded:
  "for_agents inp as (s, t, al) =
   for_agents inp (filter (\<lambda>a. case agent_id a of None \<Rightarrow> True
                                 | Some aid \<Rightarrow> aid \<notin> excluded_agents s) as) (s, t, al)"
proof (induction as arbitrary: s t al)
  case Nil
  then show ?case by simp
next
  case (Cons a as)
  let ?keep = "\<lambda>s a. case agent_id a of None \<Rightarrow> True | Some aid \<Rightarrow> aid \<notin> excluded_agents s"
  show ?case
  proof (cases "?keep s a")
    case False
    then have "process_agent inp a (s, t, al) = Inr (s, t, al)"
      by (auto simp: process_agent_def split: option.splits)
    with False Cons.IH[of s t al] show ?thesis by simp
  next
    case True
    show ?thesis
    proof (cases "process_agent inp a (s, t, al)")
      case (Inl x)
      with True show ?thesis by simp
    next
      case (Inr ls)
      obtain s1 t1 al1 where ls: "ls = (s1, t1, al1)" by (cases ls) auto
      have ex: "excluded_agents s1 = excluded_agents s"
        using process_agent_config[OF Inr[unfolded ls]] by simp
      note IH = Cons.IH[of s1 t1 al1, unfolded ex]
      from True Inr ls have "for_agents inp (a # as) (s, t, al) = for_agents inp as (s1, t1, al1)"
        by simp
      also note IH
      also from True Inr ls have "for_agents inp
          (filter (\<lambda>a. case agent_id a of None \<Rightarrow> True
                        | Some aid \<Rightarrow> aid \<notin> excluded_agents s) as) (s1, t1, al1) =
        for_agents inp
          (filter (\<lambda>a. case agent_id a of None \<Rightarrow> True
                        | Some aid \<Rightarrow> aid \<notin> excluded_agents s) (a # as)) (s, t, al)"
        by simp
      finally show ?thesis .
    qed
  qed
qed

lemma process_agent_unavailable:
  assumes "get_agent_availability (availability_response inp) i = []"
      and "agent_id a = Some i" and "agent_name a \<noteq> None \<or> i \<in> excluded_agents s"
  shows "process_agent inp a (s, t, al) = Inr (s, t, al)"
  using assms by (auto simp: process_agent_def split: option.splits)

lemma process_agent_unavailable_frame:
  assumes "get_agent_availability (availability_response inp) i = []"
      and "process_agent inp a (s, t, al) = Inr (s', t', al')"
  shows "agent_status_times s' i = agent_status_times s i \<and>
         (i \<in> alerted_agents s' \<longleftrightarrow> i \<in> alerted_agents s)"
  using assms by (auto simp: process_agent_def Let_def split: option.splits if_splits)

lemma for_agents_unavailable_frame:
  "for_agents inp as (s, t, al) = (e, s', t', al') \<Longrightarrow>
   get_agent_availability (availability_response inp) i = [] \<Longrightarrow>
   agent_status_times s' i = agent_status_times s i \<and>
   (i \<in> alerted_agents s' \<longleftrightarrow> i \<in> alerted_agents s)"
proof (induction as arbitrary: s t al)
  case Nil
  then show ?case by simp
next
  case (Cons a as)
  show ?case
  proof (cases "process_agent inp a (s, t, al)")
    case (Inl x)
    with Cons.prems show ?thesis by simp
  next
    case (Inr ls)
    obtain s1 t1 al1 where ls: "ls = (s1, t1, al1)" by (cases ls) auto
    from Cons.prems Inr ls have r: "for_agents inp as (s1, t1, al1) = (e, s', t', al')" by simp
    from Cons.IH[OF r Cons.prems(2)]
         process_agent_unavailable_frame[OF Cons.prems(2) Inr[unfolded ls]]
    show ?thesis by simp
  qed
qed

lemma for_agents_skip_unavailable:
  "get_agent_availability (availability_response inp) i = [] \<Longrightarrow>
   \<forall>a \<in> set as. agent_id a = Some i \<longrightarrow> agent_name a \<noteq> None \<Longrightarrow>
   for_agents inp as (s, t, al) =
   for_agents inp (filter (\<lambda>a. agent_id a \<noteq> Some i) as) (s, t, al)"
proof (induction as arbitrary: s t al)
  case Nil
  then show ?case by simp
next
  case (Cons a as)
  have rest: "\<forall>a \<in> set as. agent_id a = Some i \<longrightarrow> agent_name a \<noteq> None"
    using Cons.prems(2) by simp
  show ?case
  proof (cases "agent_id a = Some i")
    case True
    with Cons.prems(2) have "agent_name a \<noteq> None \<or> i \<in> excluded_agents s" by simp
    from process_agent_unavailable[OF Cons.prems(1) True this]
    have "process_agent inp a (s, t, al) = Inr (s, t, al)" .
    with True Cons.IH[OF Cons.prems(1) rest, of s t al] show ?thesis by simp
  next
    case False
    show ?thesis
    proof (cases "process_agent inp a (s, t, al)")
      case (Inl x)
      with False show ?thesis by simp
    next
      case (Inr ls)
      obtain s1 t1 al1 where ls: "ls = (s1, t1, al1)" by (cases ls) auto
      from False Inr ls Cons.IH[OF Cons.prems(1) rest, of s1 t1 al1] show ?thesis by simp
    qed
  qed
qed

lemma monitor_cycle_same_loop:
  assumes "for_agents inp (get_agents (users_response inp)) (m, [], []) =
           for_agents inp' (get_agents (users_response inp')) (m, [], [])"
  shows "monitor_after (monitor_cycle m inp) = monitor_after (monitor_cycle m inp') \<and>
         active (monitor_cycle m inp) = active (monitor_cycle m inp') \<and>
         alerts (monitor_cycle m inp) = alerts (monitor_cycle m inp') \<and>
         raised (monitor_cycle m inp) = raised (monitor_cycle m inp')"
proof (cases "for_agents inp (get_agents (users_response inp)) (m, [], [])")
  case (fields e s t al)
  from monitor_cycle_eq[OF fields] monitor_cycle_eq[OF fields[unfolded assms]]
  show ?thesis by simp
qed

lemma for_agents_inputs:
  "now inp' = now inp \<Longrightarrow> availability_response inp' = availability_response inp \<Longrightarrow>
   for_agents inp' as ls = for_agents inp as ls"
proof (induction as arbitrary: ls)
  case Nil
  then show ?case by simp
next
  case (Cons a as)
  have "process_agent inp' a ls = process_agent inp a ls"
    unfolding process_agent_def Cons.prems ..
  with Cons show ?case by (simp split: sum.splits)
qed

lemma monitor_cycle_frame:
  assumes "\<forall>a \<in> set (get_agents (users_response inp)). agent_id a \<noteq> Some i"
  shows "agent_status_times (monitor_after (monitor_cycle m inp)) i = agent_status_times m i \<and>
         (i \<in> alerted_agents (monitor_after (monitor_cycle m inp)) \<longleftrightarrow> i \<in> alerted_agents m)"
proof (cases "for_agents inp (get_agents (users_response inp)) (m, [], [])")
  case (fields e s t al)
  from for_agents_frame[OF fields assms] monitor_cycle_eq[OF fields] show ?thesis by simp
qed


subsection \<open>What a cycle does for one agent\<close>

lemma monitor_cycle_watched:
  assumes "listed inp i" and "in_transfers_only inp i" and "i \<notin> excluded_agents m"
      and "\<forall>a \<in> set (get_agents (users_response inp)). well_formed m a"
  shows "raised (monitor_cycle m inp) = None \<and>
         agent_status_times (monitor_after (monitor_cycle m inp)) i = Some (started_at m inp i) \<and>
         (\<forall>a \<in> set (get_agents (users_response inp)). agent_id a = Some i \<longrightarrow>
            (\<exists>n. agent_name a = Some n \<and>
                 (n, now inp - started_at m inp i) \<in> set (active (monitor_cycle m inp)))) \<and>
         (i \<in> alerted_agents (monitor_after (monitor_cycle m inp)) \<longleftrightarrow>
            (agent_status_times m i \<noteq> None \<and> i \<in> alerted_agents m) \<or>
            now inp - started_at m inp i \<ge> alert_threshold m) \<and>
         ((agent_status_times m i = None \<or> i \<notin> alerted_agents m) \<longrightarrow>
          now inp - started_at m inp i \<ge> alert_threshold m \<longrightarrow>
          (\<exists>a \<in> set (get_agents (users_response inp)). agent_id a = Some i \<and>
            (\<exists>n. agent_name a = Some n \<and>
                 (n, py_int (now inp - started_at m inp i)) \<in> set (alerts (monitor_cycle m inp)))))"
proof -
  obtain e s t al where fields:
    "for_agents inp (get_agents (users_response inp)) (m, [], []) = (e, s, t, al)"
    by (cases "for_agents inp (get_agents (users_response inp)) (m, [], [])") auto
  have e: "e = None"
    using for_agents_raises[of inp "get_agents (users_response inp)" m "[]" "[]"] assms(4) fields
    by simp
  have l: "\<exists>a \<in> set (get_agents (users_response inp)). agent_id a = Some i"
    using assms(1) by (simp add: listed_def)
  note w = for_agents_watched[OF fields assms(2,3,4)]
  note c = monitor_cycle_eq[OF fields]
  have act: "set (active (monitor_cycle m inp)) = set t" using c e by simp
  from w l c e show ?thesis unfolding act by simp
qed

lemma for_agents_other:
  "for_agents inp as (s, t, al) = (e, s', t', al') \<Longrightarrow> in_other_state inp i \<Longrightarrow>
   i \<notin> excluded_agents s \<Longrightarrow> \<forall>a \<in> set as. well_formed s a \<Longrightarrow>
   (\<exists>a \<in> set as. agent_id a = Some i) \<or> (agent_status_times s i = None \<and> i \<notin> alerted_agents s) \<Longrightarrow>
   agent_status_times s' i = None \<and> i \<notin> alerted_agents s'"
proof (induction as arbitrary: s t al)
  case Nil
  then show ?case by simp
next
  case (Cons a as)
  have wfa: "well_formed s a" and wfas: "\<forall>b \<in> set as. well_formed s b"
    using Cons.prems(4) by simp_all
  obtain ls where Inr: "process_agent inp a (s, t, al) = Inr ls"
    using wfa process_agent_raises[of inp a s t al] by (cases "process_agent inp a (s, t, al)") auto
  obtain s1 t1 al1 where ls: "ls = (s1, t1, al1)" by (cases ls) auto
  note step = Inr[unfolded ls]
  from Cons.prems(1) step have r: "for_agents inp as (s1, t1, al1) = (e, s', t', al')" by simp
  note cfg = process_agent_config[OF step]
  have ex1: "i \<notin> excluded_agents s1" using cfg Cons.prems(3) by simp
  have wf1: "\<forall>b \<in> set as. well_formed s1 b" using wfas well_formed_cong[of s1 s] cfg by simp
  have "(\<exists>a \<in> set as. agent_id a = Some i) \<or>
        (agent_status_times s1 i = None \<and> i \<notin> alerted_agents s1)"
  proof (cases "agent_id a = Some i")
    case True
    from process_agent_other[OF step True Cons.prems(3) Cons.prems(2)] show ?thesis by simp
  next
    case False
    from process_agent_frame[OF step False] Cons.prems(5) False show ?thesis by auto
  qed
  from Cons.IH[OF r Cons.prems(2) ex1 wf1 this] show ?case .
qed

lemma monitor_cycle_other:
  assumes "listed inp i" and "in_other_state inp i" and "i \<notin> excluded_agents m"
      and "\<forall>a \<in> set (get_agents (users_response inp)). well_formed m a"
  shows "raised (monitor_cycle m inp) = None \<and>
         agent_status_times (monitor_after (monitor_cycle m inp)) i = None \<and>
         i \<notin> alerted_agents (monitor_after (monitor_cycle m inp))"
proof -
  obtain e s t al where fields:
    "for_agents inp (get_agents (users_response inp)) (m, [], []) = (e, s, t, al)"
    by (cases "for_agents inp (get_agents (users_response inp)) (m, [], [])") auto
  have l: "(\<exists>a \<in> set (get_agents (users_response inp)). agent_id a = Some i) \<or>
           (agent_status_times m i = None \<and> i \<notin> alerted_agents m)"
    using assms(1) by (simp add: listed_def)
  from for_agents_other[OF fields assms(2,3,4) l] monitor_cycle_eq[OF fields]
       monitor_cycle_raises[of m inp] assms(4)
  show ?thesis by simp
qed

lemma monitor_agents_Cons:
  "raised (monitor_cycle m inp) = None \<Longrightarrow>
   monitor_agents m (inp # inps) =
     (fst (monitor_agents (monitor_after (monitor_cycle m inp)) inps),
      fst (snd (monitor_agents (monitor_after (monitor_cycle m inp)) inps)),
      monitor_cycle m inp # snd (snd (monitor_agents (monitor_after (monitor_cycle m inp)) inps)))"
  by (cases "monitor_agents (monitor_after (monitor_cycle m inp)) inps") (simp add: Let_def)

lemma monitor_agents_watched:
  assumes "\<forall>inp \<in> set inps. listed inp i \<and> in_transfers_only inp i \<and>
             (\<forall>a \<in> set (get_agents (users_response inp)). well_formed m a)"
      and "i \<notin> excluded_agents m" and "agent_status_times m i = Some t0"
      and "k < length inps"
  shows "agent_status_times (monitor_after (snd (snd (monitor_agents m inps)) ! k)) i = Some t0 \<and>
         (\<forall>a \<in> set (get_agents (users_response (inps ! k))). agent_id a = Some i \<longrightarrow>
            (\<exists>n. agent_name a = Some n \<and>
                 (n, now (inps ! k) - t0) \<in> set (active (snd (snd (monitor_agents m inps)) ! k))))"
  using assms
proof (induction inps arbitrary: m k)
  case Nil
  then show ?case by simp
next
  case (Cons inp inps)
  let ?r = "monitor_cycle m inp"
  have here: "listed inp i" "in_transfers_only inp i"
     "\<forall>a \<in> set (get_agents (users_response inp)). well_formed m a"
    using Cons.prems(1) by simp_all
  have st: "started_at m inp i = t0" using Cons.prems(3) by (simp add: started_at_def)
  note w = monitor_cycle_watched[OF here(1,2) Cons.prems(2) here(3), unfolded st]
  from w have ok: "raised ?r = None" by simp
  have run: "snd (snd (monitor_agents m (inp # inps))) =
      ?r # snd (snd (monitor_agents (monitor_after ?r) inps))"
    by (simp only: monitor_agents_Cons[OF ok, of inps] snd_conv)
  show ?case
  proof (cases k)
    case 0
    with w show ?thesis by (simp add: run del: monitor_agents.simps)
  next
    case (Suc k')
    have ex: "excluded_agents (monitor_after ?r) = excluded_agents m"
      using monitor_cycle_config[of m inp] by simp
    have p1: "\<forall>inp \<in> set inps. listed inp i \<and> in_transfers_only inp i \<and>
             (\<forall>a \<in> set (get_agents (users_response inp)). well_formed (monitor_after ?r) a)"
      using Cons.prems(1) well_formed_cong[OF ex] by simp
    have p2: "i \<notin> excluded_agents (monitor_after ?r)" using ex Cons.prems(2) by simp
    have p3: "agent_status_times (monitor_after ?r) i = Some t0" using w by simp
    have p4: "k' < length inps" using Cons.prems(4) Suc by simp
    from Cons.IH[OF p1 p2 p3 p4] Suc show ?thesis by (simp add: run del: monitor_agents.simps)
  qed
qed


subsection \<open>The scenario, and the handler\<close>

lemma monitor_agents_snoc:
  "monitor_agents m inps = (None, m', rs) \<Longrightarrow>
   monitor_agents m (inps @ [inp]) =
     (raised (monitor_cycle m' inp), monitor_after (monitor_cycle m' inp),
      rs @ [monitor_cycle m' inp])"
proof (induction inps arbitrary: m rs)
  case Nil
  then show ?case by (cases "raised (monitor_cycle m' inp)") (simp_all add: Let_def)
next
  case (Cons x xs)
  let ?r = "monitor_cycle m x"
  obtain e1 m1 rs1 where rest: "monitor_agents (monitor_after ?r) xs = (e1, m1, rs1)"
    by (cases "monitor_agents (monitor_after ?r) xs") auto
  from Cons.prems rest have ok: "raised ?r = None"
    by (cases "raised ?r") (simp_all add: Let_def)
  from Cons.prems rest ok have eq: "e1 = None" "m1 = m'" "rs = ?r # rs1"
    by (simp_all add: Let_def)
  from Cons.IH[OF rest[unfolded eq(1,2)]] ok eq show ?case by (simp add: Let_def)
qed

lemma scenario_cycle:
  "monitor_cycle (scenario_monitor n) (poll (60 * real n) [mk_agent 1 ''A''] transfers_only_reply)
     = scenario_report n"
proof -
  consider "n = 0" | "0 < n" "n < 10" | "n = 10" | "10 < n" by linarith
  then show ?thesis
  proof cases
    case 1
    then show ?thesis
      by (subst monitor_cycle_poll_A) (simp add: scenario_monitor_def scenario_report_def init_monitor_def
          started_at_def poll_def Let_def)
  next
    case 2
    then show ?thesis
      by (subst monitor_cycle_poll_A) (simp add: scenario_monitor_def scenario_report_def init_monitor_def
          started_at_def poll_def Let_def)
  next
    case 3
    then show ?thesis
      by (subst monitor_cycle_poll_A) (simp add: scenario_monitor_def scenario_report_def init_monitor_def
          started_at_def poll_def py_int_def Let_def)
  next
    case 4
    then show ?thesis
      by (subst monitor_cycle_poll_A) (simp add: scenario_monitor_def scenario_report_def init_monitor_def
          started_at_def poll_def Let_def)
  qed
qed

lemma scenario_run:
  "monitor_agents (init_monitor {}) (scenario_polls n)
     = (None, scenario_monitor n, map scenario_report [0..<n])"
proof (induction n)
  case 0
  then show ?case by (simp add: scenario_polls_def scenario_monitor_def)
next
  case (Suc n)
  have "scenario_polls (Suc n) =
        scenario_polls n @ [poll (60 * real n) [mk_agent 1 ''A''] transfers_only_reply]"
    by (simp add: scenario_polls_def)
  with monitor_agents_snoc[OF Suc.IH] scenario_cycle[of n] show ?case
    by (simp add: scenario_report_def)
qed


lemma acknowledgment_try_monitor:
  "acknowledgment_try ack_ok client_ok body s = Inl (e, s') \<Longrightarrow> the_monitor s' = the_monitor s"
  "acknowledgment_try ack_ok client_ok body s = Inr s' \<Longrightarrow> the_monitor s' = the_monitor s"
  by (auto simp: acknowledgment_try_def Let_def split: if_splits option.splits)


subsection \<open>Alerts of one agent\<close>

lemma process_agent_sent:
  "process_agent inp a (s, t, al) = Inr (s', t', al') \<Longrightarrow> al' = al \<or> (\<exists>x. al' = al @ [x])"
  by (auto simp: process_agent_def Let_def split: option.splits if_splits)

lemma process_agent_count_watched:
  assumes "process_agent inp a (s, t, al) = Inr (s', t', al')"
      and "agent_id a = Some i" and "i \<notin> excluded_agents s" and "in_transfers_only inp i"
  shows "length al' - length al = (if armed s inp i then 1 else 0) \<and> \<not> armed s' inp i"
  using assms
  by (auto simp: process_agent_def in_transfers_only_def started_at_def armed_def Let_def
           split: option.splits if_splits)

lemma process_agent_count_bound:
  assumes "process_agent inp a (s, t, al) = Inr (s', t', al')"
      and "\<not> in_other_state inp i"
  shows "(if agent_id a = Some i then length al' - length al else 0)
           \<le> (if suppressed s i then 0 else 1) \<and>
         (suppressed s i \<or> (if agent_id a = Some i then length al' - length al else 0) = 1
            \<longrightarrow> suppressed s' i)"
  using assms
  by (auto simp: process_agent_def in_other_state_def suppressed_def Let_def
           split: option.splits if_splits)

lemma loop_alerts_bound:
  "for_agents inp as (s, t, al) = (e, s', t', al') \<Longrightarrow> \<not> in_other_state inp i \<Longrightarrow>
   loop_alerts_for i inp as (s, t, al) \<le> (if suppressed s i then 0 else 1) \<and>
   (suppressed s i \<or> loop_alerts_for i inp as (s, t, al) = 1 \<longrightarrow> suppressed s' i)"
proof (induction as arbitrary: s t al)
  case Nil
  then show ?case by simp
next
  case (Cons a as)
  show ?case
  proof (cases "process_agent inp a (s, t, al)")
    case (Inl x)
    with Cons.prems show ?thesis by simp
  next
    case (Inr ls)
    obtain s1 t1 al1 where ls: "ls = (s1, t1, al1)" by (cases ls) auto
    note step = Inr[unfolded ls]
    from Cons.prems(1) step have r: "for_agents inp as (s1, t1, al1) = (e, s', t', al')" by simp
    let ?c = "if agent_id a = Some i then length al1 - length al else 0"
    let ?rest = "loop_alerts_for i inp as (s1, t1, al1)"
    have total: "loop_alerts_for i inp (a # as) (s, t, al) = ?c + ?rest"
      using step by simp
    note h = process_agent_count_bound[OF step Cons.prems(2)]
    note IH = Cons.IH[OF r Cons.prems(2)]
    show ?thesis
    proof (cases "suppressed s i")
      case True
      with h have "?c = 0" "suppressed s1 i" by simp_all
      with IH True show ?thesis unfolding total by simp
    next
      case False
      show ?thesis
      proof (cases "?c = 1")
        case True
        with h have "suppressed s1 i" by simp
        with IH True False show ?thesis unfolding total by simp
      next
        case c0: False
        with h False have "?c = 0" by (simp split: if_splits)
        with IH False show ?thesis unfolding total by (auto split: if_splits)
      qed
    qed
  qed
qed

lemma cycle_alerts_bound:
  assumes "\<not> in_other_state inp i"
  shows "cycle_alerts_for i m inp \<le> (if suppressed m i then 0 else 1) \<and>
         (suppressed m i \<or> cycle_alerts_for i m inp = 1 \<longrightarrow>
            suppressed (monitor_after (monitor_cycle m inp)) i)"
proof (cases "for_agents inp (get_agents (users_response inp)) (m, [], [])")
  case (fields e s t al)
  from loop_alerts_bound[OF fields assms] monitor_cycle_eq[OF fields]
  show ?thesis by (simp add: cycle_alerts_for_def)
qed

lemma run_alerts_bound:
  "\<forall>inp \<in> set inps. \<not> in_other_state inp i \<Longrightarrow>
   run_alerts_for i m inps \<le> (if suppressed m i then 0 else 1)"
proof (induction inps arbitrary: m)
  case Nil
  then show ?case by simp
next
  case (Cons inp inps)
  let ?r = "monitor_cycle m inp"
  have here: "\<not> in_other_state inp i" and later: "\<forall>inp \<in> set inps. \<not> in_other_state inp i"
    using Cons.prems by simp_all
  note c = cycle_alerts_bound[OF here, of m]
  show ?case
  proof (cases "raised ?r")
    case (Some x)
    with c show ?thesis by simp
  next
    case None
    note IH = Cons.IH[OF later, of "monitor_after ?r"]
    have total: "run_alerts_for i m (inp # inps) =
        cycle_alerts_for i m inp + run_alerts_for i (monitor_after ?r) inps"
      using None by simp
    show ?thesis
    proof (cases "suppressed m i \<or> cycle_alerts_for i m inp = 1")
      case True
      with c have "suppressed (monitor_after ?r) i" by blast
      with IH have "run_alerts_for i (monitor_after ?r) inps = 0" by simp
      with c show ?thesis unfolding total by simp
    next
      case False
      with c have "cycle_alerts_for i m inp = 0" by (simp split: if_splits)
      with IH False show ?thesis unfolding total by (simp split: if_splits)
    qed
  qed
qed

lemma armed_cong:
  "agent_status_times s1 i = agent_status_times s i \<Longrightarrow>
   (i \<in> alerted_agents s1 \<longleftrightarrow> i \<in> alerted_agents s) \<Longrightarrow>
   alert_threshold s1 = alert_threshold s \<Longrightarrow> armed s1 inp i = armed s inp i"
  by (simp add: armed_def started_at_def)

lemma loop_alerts_watched:
  "for_agents inp as (s, t, al) = (e, s', t', al') \<Longrightarrow> in_transfers_only inp i \<Longrightarrow>
   i \<notin> excluded_agents s \<Longrightarrow> \<forall>a \<in> set as. well_formed s a \<Longrightarrow>
   loop_alerts_for i inp as (s, t, al) =
     (if (\<exists>a \<in> set as. agent_id a = Some i) \<and> armed s inp i then 1 else 0)"
proof (induction as arbitrary: s t al)
  case Nil
  then show ?case by simp
next
  case (Cons a as)
  have wfa: "well_formed s a" and wfas: "\<forall>b \<in> set as. well_formed s b"
    using Cons.prems(4) by simp_all
  obtain ls where Inr: "process_agent inp a (s, t, al) = Inr ls"
    using wfa process_agent_raises[of inp a s t al] by (cases "process_agent inp a (s, t, al)") auto
  obtain s1 t1 al1 where ls: "ls = (s1, t1, al1)" by (cases ls) auto
  note step = Inr[unfolded ls]
  from Cons.prems(1) step have r: "for_agents inp as (s1, t1, al1) = (e, s', t', al')" by simp
  note cfg = process_agent_config[OF step]
  have ex1: "i \<notin> excluded_agents s1" using cfg Cons.prems(3) by simp
  have wf1: "\<forall>b \<in> set as. well_formed s1 b" using wfas well_formed_cong[of s1 s] cfg by simp
  note IH = Cons.IH[OF r Cons.prems(2) ex1 wf1]
  have total: "loop_alerts_for i inp (a # as) (s, t, al) =
      (if agent_id a = Some i then length al1 - length al else 0)
      + loop_alerts_for i inp as (s1, t1, al1)"
    using step by simp
  show ?case
  proof (cases "agent_id a = Some i")
    case True
    note w = process_agent_count_watched[OF step True Cons.prems(3) Cons.prems(2)]
    from w IH have "loop_alerts_for i inp as (s1, t1, al1) = 0" by simp
    with w True show ?thesis unfolding total by simp
  next
    case False
    note fr = process_agent_frame[OF step False]
    have "armed s1 inp i = armed s inp i" using fr cfg by (intro armed_cong) simp_all
    with IH False show ?thesis unfolding total by simp
  qed
qed

lemma loop_alerts_all:
  "for_agents inp as (s, t, al) = (e, s', t', al') \<Longrightarrow> \<forall>a \<in> set as. agent_id a = Some i \<Longrightarrow>
   length al' = length al + loop_alerts_for i inp as (s, t, al)"
proof (induction as arbitrary: s t al)
  case Nil
  then show ?case by simp
next
  case (Cons a as)
  show ?case
  proof (cases "process_agent inp a (s, t, al)")
    case (Inl x)
    with Cons.prems show ?thesis by simp
  next
    case (Inr ls)
    obtain s1 t1 al1 where ls: "ls = (s1, t1, al1)" by (cases ls) auto
    note step = Inr[unfolded ls]
    from Cons.prems(1) step have r: "for_agents inp as (s1, t1, al1) = (e, s', t', al')" by simp
    from Cons.prems(2) have ids: "agent_id a = Some i" "\<forall>a \<in> set as. agent_id a = Some i"
      by simp_all
    from process_agent_sent[OF step] have "length al \<le> length al1" by auto
    with Cons.IH[OF r ids(2)] step ids(1) show ?thesis by simp
  qed
qed


subsection \<open>The claims\<close>

text \<open>
  C10. After every cycle of the monitor started by \<^verbatim>\<open>__init__\<close>, whatever the provider
  answers, every id in \<^verbatim>\<open>alerted_agents\<close> is a key of \<^verbatim>\<open>agent_status_times\<close>: this
  holds of \<^verbatim>\<open>self\<close> when the run stops (also when an exception stops it) and after each
  cycle on the way.
\<close>

theorem ledger_subset_of_tracked:
  "alerted_agents (fst (snd (monitor_agents (init_monitor excluded) inps)))
     \<subseteq> dom (agent_status_times (fst (snd (monitor_agents (init_monitor excluded) inps)))) \<and>
   (\<forall>r \<in> set (snd (snd (monitor_agents (init_monitor excluded) inps))).
      alerted_agents (monitor_after r) \<subseteq> dom (agent_status_times (monitor_after r)))"
proof -
  obtain e m rs where run: "monitor_agents (init_monitor excluded) inps = (e, m, rs)"
    by (cases "monitor_agents (init_monitor excluded) inps") auto
  have "alerted_agents (init_monitor excluded)
          \<subseteq> dom (agent_status_times (init_monitor excluded))"
    by (simp add: init_monitor_def)
  from monitor_agents_invariant[OF this run] show ?thesis by (simp add: run)
qed

theorem ledger_subset_of_tracked_witness:
  "alerted_agents (fst (snd (monitor_agents (init_monitor {})
       [poll 0 [mk_agent 1 ''A''] transfers_only_reply,
        poll 600 [mk_agent 1 ''A''] transfers_only_reply]))) = {1} \<and>
   alerted_agents (fst (snd (monitor_agents (init_monitor {})
       [poll 0 [mk_agent 1 ''A''] transfers_only_reply,
        poll 600 [mk_agent 1 ''A''] transfers_only_reply])))
     \<subseteq> dom (agent_status_times (fst (snd (monitor_agents (init_monitor {})
       [poll 0 [mk_agent 1 ''A''] transfers_only_reply,
        poll 600 [mk_agent 1 ''A''] transfers_only_reply]))))"
proof -
  have "alerted_agents (fst (snd (monitor_agents (init_monitor {})
       [poll 0 [mk_agent 1 ''A''] transfers_only_reply,
        poll 600 [mk_agent 1 ''A''] transfers_only_reply]))) = {1}"
    by (simp add: monitor_cycle_poll_A init_monitor_def started_at_def Let_def)
  with ledger_subset_of_tracked[of "{}"
       "[poll 0 [mk_agent 1 ''A''] transfers_only_reply,
         poll 600 [mk_agent 1 ''A''] transfers_only_reply]"]
  show ?thesis by blast
qed

text \<open>
  C4. A cycle in which \<^verbatim>\<open>get_agents\<close> returns no data (the request failed, or the answer
  has no users) changes neither \<^verbatim>\<open>agent_status_times\<close> nor \<^verbatim>\<open>alerted_agents\<close>, sends
  no alert, prints no summary and raises nothing; the cycles after it run exactly as they
  would have run without it, so every duration they compute is counted from the start
  time recorded before the failure.
\<close>

theorem failed_fetch_skips_cycle:
  assumes "get_agents (users_response inp) = []"
  shows "monitor_cycle m inp = \<lparr>monitor_after = m, summary = None, alerts = [], raised = None\<rparr> \<and>
         monitor_agents m (inp # inps) =
           (fst (monitor_agents m inps), fst (snd (monitor_agents m inps)),
            \<lparr>monitor_after = m, summary = None, alerts = [], raised = None\<rparr>
              # snd (snd (monitor_agents m inps)))"
proof -
  have c: "monitor_cycle m inp = \<lparr>monitor_after = m, summary = None, alerts = [], raised = None\<rparr>"
    using assms by (simp add: monitor_cycle_def)
  have "monitor_agents m (inp # inps) =
           (fst (monitor_agents m inps), fst (snd (monitor_agents m inps)),
            \<lparr>monitor_after = m, summary = None, alerts = [], raised = None\<rparr>
              # snd (snd (monitor_agents m inps)))"
    by (cases "monitor_agents m inps") (simp add: c)
  with c show ?thesis by simp
qed

theorem failed_fetch_skips_cycle_witness:
  "get_agents (users_response (failed_poll 60)) = [] \<and>
   monitor_cycle tracking_7 (failed_poll 60) =
     \<lparr>monitor_after = tracking_7, summary = None, alerts = [], raised = None\<rparr> \<and>
   map active (snd (snd (monitor_agents tracking_7
       [failed_poll 60, poll 120 [mk_agent 7 ''G''] transfers_only_reply])))
     = [[], [(''G'', 120)]]"
proof -
  have h: "get_agents (users_response (failed_poll 60)) = []"
    by (simp add: failed_poll_def get_agents_def)
  have run: "snd (snd (monitor_agents tracking_7 [poll 120 [mk_agent 7 ''G''] transfers_only_reply]))
      = [\<lparr>monitor_after = tracking_7, summary = Some [(''G'', 120)], alerts = [], raised = None\<rparr>]"
    by (simp add: monitor_cycle_def poll_def mk_agent_def transfers_only_reply_def get_agents_def
        process_agent_def get_agent_availability_def tracking_7_def init_monitor_def Let_def)
  note skip = failed_fetch_skips_cycle[OF h, of tracking_7
         "[poll 120 [mk_agent 7 ''G''] transfers_only_reply]"]
  have rest: "snd (snd (monitor_agents tracking_7
       [failed_poll 60, poll 120 [mk_agent 7 ''G''] transfers_only_reply])) =
     \<lparr>monitor_after = tracking_7, summary = None, alerts = [], raised = None\<rparr>
       # snd (snd (monitor_agents tracking_7 [poll 120 [mk_agent 7 ''G''] transfers_only_reply]))"
    by (simp only: conjunct2[OF skip] snd_conv)
  have "map active (snd (snd (monitor_agents tracking_7
       [failed_poll 60, poll 120 [mk_agent 7 ''G''] transfers_only_reply])))
     = [[], [(''G'', 120)]]"
    unfolding rest run by (simp add: active_def)
  with h conjunct1[OF skip] show ?thesis by blast
qed




text \<open>
  C1, as the code has it: agent 7 is tracked and alerted, the snapshot lists agent 8 only,
  and after the cycle agent 7 is still tracked, with the same start, and still alerted.
\<close>

theorem absent_agent_counterexample:
  "agent_status_times tracking_7 7 = Some 0 \<and> 7 \<in> alerted_agents tracking_7 \<and>
   get_agents (users_response (poll 60 [mk_agent 8 ''H''] online_reply)) = [mk_agent 8 ''H''] \<and>
   agent_status_times (monitor_after (monitor_cycle tracking_7
       (poll 60 [mk_agent 8 ''H''] online_reply))) 7 = Some 0 \<and>
   7 \<in> alerted_agents (monitor_after (monitor_cycle tracking_7
       (poll 60 [mk_agent 8 ''H''] online_reply)))"
  by (simp add: monitor_cycle_def poll_def mk_agent_def online_reply_def get_agents_def
        process_agent_def get_agent_availability_def tracking_7_def init_monitor_def Let_def)

text \<open>
  C1, amended. A cycle leaves the episode and the ledger membership of every agent that
  its snapshot does not list exactly as they were (also when the cycle raises).
\<close>

theorem absent_agent_untouched:
  assumes "\<not> listed inp i"
  shows "agent_status_times (monitor_after (monitor_cycle m inp)) i = agent_status_times m i \<and>
         (i \<in> alerted_agents (monitor_after (monitor_cycle m inp)) \<longleftrightarrow> i \<in> alerted_agents m)"
proof (cases "for_agents inp (get_agents (users_response inp)) (m, [], [])")
  case (fields e s t al)
  from assms have "\<forall>a \<in> set (get_agents (users_response inp)). agent_id a \<noteq> Some i"
    by (simp add: listed_def)
  from for_agents_frame[OF fields this] monitor_cycle_eq[OF fields] show ?thesis by simp
qed

theorem absent_agent_untouched_witness:
  "\<not> listed (poll 60 [mk_agent 8 ''H''] transfers_only_reply) 7 \<and>
   agent_status_times (monitor_after (monitor_cycle tracking_7
       (poll 60 [mk_agent 8 ''H''] transfers_only_reply))) 7 = Some 0 \<and>
   7 \<in> alerted_agents (monitor_after (monitor_cycle tracking_7
       (poll 60 [mk_agent 8 ''H''] transfers_only_reply)))"
proof -
  have h: "\<not> listed (poll 60 [mk_agent 8 ''H''] transfers_only_reply) 7"
    by (simp add: listed_def poll_def get_agents_def mk_agent_def)
  have s: "agent_status_times tracking_7 7 = Some 0" "7 \<in> alerted_agents tracking_7"
    by (simp_all add: tracking_7_def)
  from absent_agent_untouched[OF h, of tracking_7] h s show ?thesis by simp
qed

text \<open>
  C8. Whatever the availability of an excluded agent says, a cycle does exactly what it
  would do on the snapshot without the records of the excluded agents: the same
  \<^verbatim>\<open>self\<close> afterwards, the same list of active agents, the same alerts, the same
  exception if any. So no entry of the active list and no alert comes from an excluded
  agent's record, and the cycle changes neither the entry of an excluded id in
  \<^verbatim>\<open>agent_status_times\<close> nor its membership of \<^verbatim>\<open>alerted_agents\<close>: no episode is
  created for it and it is not added to the ledger.
\<close>

theorem excluded_agents_skipped:
  "monitor_after (monitor_cycle m inp) = monitor_after (monitor_cycle m (without_excluded m inp)) \<and>
   active (monitor_cycle m inp) = active (monitor_cycle m (without_excluded m inp)) \<and>
   alerts (monitor_cycle m inp) = alerts (monitor_cycle m (without_excluded m inp)) \<and>
   raised (monitor_cycle m inp) = raised (monitor_cycle m (without_excluded m inp)) \<and>
   (\<forall>x \<in> excluded_agents m.
      \<not> listed (without_excluded m inp) x \<and>
      agent_status_times (monitor_after (monitor_cycle m inp)) x = agent_status_times m x \<and>
      (x \<in> alerted_agents (monitor_after (monitor_cycle m inp)) \<longleftrightarrow> x \<in> alerted_agents m))"
proof -
  let ?inp' = "without_excluded m inp"
  have ag: "get_agents (users_response ?inp') =
      filter (\<lambda>a. case agent_id a of None \<Rightarrow> True | Some aid \<Rightarrow> aid \<notin> excluded_agents m)
        (get_agents (users_response inp))"
    by (simp add: without_excluded_def get_agents_def)
  have same: "for_agents inp (get_agents (users_response inp)) (m, [], []) =
        for_agents ?inp' (get_agents (users_response ?inp')) (m, [], [])"
    unfolding ag
    by (subst for_agents_skip_excluded, rule for_agents_inputs[symmetric])
       (simp_all add: without_excluded_def)
  note eq = monitor_cycle_same_loop[OF same]
  have "\<not> listed ?inp' x \<and>
      agent_status_times (monitor_after (monitor_cycle m inp)) x = agent_status_times m x \<and>
      (x \<in> alerted_agents (monitor_after (monitor_cycle m inp)) \<longleftrightarrow> x \<in> alerted_agents m)"
    if x: "x \<in> excluded_agents m" for x
  proof -
    have nl: "\<not> listed ?inp' x" using x by (auto simp: listed_def ag)
    then have "\<forall>a \<in> set (get_agents (users_response ?inp')). agent_id a \<noteq> Some x"
      by (simp add: listed_def)
    from monitor_cycle_frame[OF this, of m] eq nl show ?thesis by simp
  qed
  with eq show ?thesis by blast
qed


theorem excluded_agents_skipped_witness:
  "1 \<in> excluded_agents (init_monitor {1}) \<and>
   agent_status_times (monitor_after (monitor_cycle (init_monitor {1})
      (poll 900 [mk_agent 1 ''A'', mk_agent 2 ''B''] transfers_only_reply))) 1 = None \<and>
   1 \<notin> alerted_agents (monitor_after (monitor_cycle (init_monitor {1})
      (poll 900 [mk_agent 1 ''A'', mk_agent 2 ''B''] transfers_only_reply))) \<and>
   active (monitor_cycle (init_monitor {1})
      (poll 900 [mk_agent 1 ''A'', mk_agent 2 ''B''] transfers_only_reply)) = [(''B'', 0)]"
proof -
  let ?inp = "poll 900 [mk_agent 1 ''A'', mk_agent 2 ''B''] transfers_only_reply"
  have x: "1 \<in> excluded_agents (init_monitor {1})" by (simp add: init_monitor_def)
  have act: "active (monitor_cycle (init_monitor {1}) (without_excluded (init_monitor {1}) ?inp))
      = [(''B'', 0)]"
    by (simp add: monitor_cycle_def without_excluded_def poll_def mk_agent_def
        transfers_only_reply_def get_agents_def process_agent_def get_agent_availability_def
        init_monitor_def active_def Let_def)
  note t = excluded_agents_skipped[of "init_monitor {1}" ?inp]
  from t x have "agent_status_times (monitor_after (monitor_cycle (init_monitor {1}) ?inp)) 1
       = agent_status_times (init_monitor {1}) 1 \<and>
     (1 \<in> alerted_agents (monitor_after (monitor_cycle (init_monitor {1}) ?inp))
       \<longleftrightarrow> 1 \<in> alerted_agents (init_monitor {1}))"
    by blast
  moreover from t act have "active (monitor_cycle (init_monitor {1}) ?inp) = [(''B'', 0)]"
    by simp
  ultimately show ?thesis using x by (simp add: init_monitor_def)
qed

text \<open>
  C9. When \<^verbatim>\<open>get_agent_availability\<close> returns the empty dictionary for an agent (the
  request failed, or the answer has no availability), the cycle leaves that agent's entry
  in \<^verbatim>\<open>agent_status_times\<close> and its membership of \<^verbatim>\<open>alerted_agents\<close> as they were;
  and, its records having a name, the cycle does exactly what it would do on the snapshot
  without them: the agent is in neither the active list nor the alerts.
\<close>

theorem unavailable_agent_untouched:
  assumes "get_agent_availability (availability_response inp) i = []"
  shows "agent_status_times (monitor_after (monitor_cycle m inp)) i = agent_status_times m i \<and>
         (i \<in> alerted_agents (monitor_after (monitor_cycle m inp)) \<longleftrightarrow> i \<in> alerted_agents m) \<and>
         ((\<forall>a \<in> set (get_agents (users_response inp)). agent_id a = Some i \<longrightarrow> agent_name a \<noteq> None)
          \<longrightarrow>
          monitor_after (monitor_cycle m inp) = monitor_after (monitor_cycle m (without_agent i inp)) \<and>
          active (monitor_cycle m inp) = active (monitor_cycle m (without_agent i inp)) \<and>
          alerts (monitor_cycle m inp) = alerts (monitor_cycle m (without_agent i inp)) \<and>
          raised (monitor_cycle m inp) = raised (monitor_cycle m (without_agent i inp)))"
proof -
  let ?inp' = "without_agent i inp"
  obtain e s t al where fields:
    "for_agents inp (get_agents (users_response inp)) (m, [], []) = (e, s, t, al)"
    by (cases "for_agents inp (get_agents (users_response inp)) (m, [], [])") auto
  from for_agents_unavailable_frame[OF fields assms] monitor_cycle_eq[OF fields]
  have frame: "agent_status_times (monitor_after (monitor_cycle m inp)) i = agent_status_times m i \<and>
         (i \<in> alerted_agents (monitor_after (monitor_cycle m inp)) \<longleftrightarrow> i \<in> alerted_agents m)"
    by simp
  have ag: "get_agents (users_response ?inp') =
      filter (\<lambda>a. agent_id a \<noteq> Some i) (get_agents (users_response inp))"
    by (simp add: without_agent_def get_agents_def)
  have "monitor_after (monitor_cycle m inp) = monitor_after (monitor_cycle m ?inp') \<and>
        active (monitor_cycle m inp) = active (monitor_cycle m ?inp') \<and>
        alerts (monitor_cycle m inp) = alerts (monitor_cycle m ?inp') \<and>
        raised (monitor_cycle m inp) = raised (monitor_cycle m ?inp')"
    if named: "\<forall>a \<in> set (get_agents (users_response inp)). agent_id a = Some i \<longrightarrow> agent_name a \<noteq> None"
  proof -
    have "for_agents inp (get_agents (users_response inp)) (m, [], []) =
          for_agents ?inp' (get_agents (users_response ?inp')) (m, [], [])"
      unfolding ag
      by (subst for_agents_skip_unavailable[OF assms named], rule for_agents_inputs[symmetric])
         (simp_all add: without_agent_def)
    then show ?thesis by (rule monitor_cycle_same_loop)
  qed
  with frame show ?thesis by blast
qed

theorem unavailable_agent_untouched_witness:
  "get_agent_availability (availability_response
      (poll 900 [mk_agent 7 ''G''] RequestException)) 7 = [] \<and>
   agent_status_times (monitor_after (monitor_cycle tracking_7
      (poll 900 [mk_agent 7 ''G''] RequestException))) 7 = Some 0 \<and>
   7 \<in> alerted_agents (monitor_after (monitor_cycle tracking_7
      (poll 900 [mk_agent 7 ''G''] RequestException))) \<and>
   active (monitor_cycle tracking_7 (poll 900 [mk_agent 7 ''G''] RequestException)) = []"
proof -
  let ?inp = "poll 900 [mk_agent 7 ''G''] RequestException"
  have h: "get_agent_availability (availability_response ?inp) 7 = []"
    by (simp add: poll_def get_agent_availability_def)
  have named: "\<forall>a \<in> set (get_agents (users_response ?inp)). agent_id a = Some 7 \<longrightarrow> agent_name a \<noteq> None"
    by (simp add: poll_def get_agents_def mk_agent_def)
  have act: "active (monitor_cycle tracking_7 (without_agent 7 ?inp)) = []"
    by (simp add: monitor_cycle_def without_agent_def poll_def mk_agent_def get_agents_def
        active_def)
  have s: "agent_status_times tracking_7 7 = Some 0" "7 \<in> alerted_agents tracking_7"
    by (simp_all add: tracking_7_def)
  note t = unavailable_agent_untouched[OF h, of tracking_7]
  from t have c1: "agent_status_times (monitor_after (monitor_cycle tracking_7 ?inp)) 7
      = agent_status_times tracking_7 7" by blast
  from t have c2: "7 \<in> alerted_agents (monitor_after (monitor_cycle tracking_7 ?inp))
      \<longleftrightarrow> 7 \<in> alerted_agents tracking_7" by blast
  from t named have c3: "active (monitor_cycle tracking_7 ?inp)
      = active (monitor_cycle tracking_7 (without_agent 7 ?inp))" by blast
  from h c1 c2 c3 act s show ?thesis by simp
qed

text \<open>
  C6, as the code has it. Agent 7 is seen in transfers_only at time 0, its availability
  lookup fails at time 60, and it is seen in transfers_only again at times 900 and 960.
  The failed lookup leaves the entry of time 0 in \<^verbatim>\<open>agent_status_times\<close>, so the run of
  polls at 900 and 960 does not set the start on its first poll: the start stays 0, the
  poll at 900 reports a duration of 900 and alerts at once.
\<close>

theorem stale_start_counterexample:
  "monitor_agents (init_monitor {})
     [poll 0 [mk_agent 7 ''G''] transfers_only_reply,
      poll 60 [mk_agent 7 ''G''] RequestException,
      poll 900 [mk_agent 7 ''G''] transfers_only_reply,
      poll 960 [mk_agent 7 ''G''] transfers_only_reply]
   = (None, tracking_7,
      [\<lparr>monitor_after = (init_monitor {})\<lparr>agent_status_times := [7 \<mapsto> 0]\<rparr>,
        summary = Some [(''G'', 0)], alerts = [], raised = None\<rparr>,
       \<lparr>monitor_after = (init_monitor {})\<lparr>agent_status_times := [7 \<mapsto> 0]\<rparr>,
        summary = Some [], alerts = [], raised = None\<rparr>,
       \<lparr>monitor_after = tracking_7,
        summary = Some [(''G'', 900)], alerts = [(''G'', 900)], raised = None\<rparr>,
       \<lparr>monitor_after = tracking_7,
        summary = Some [(''G'', 960)], alerts = [], raised = None\<rparr>])"
  by (simp add: monitor_cycle_def poll_def mk_agent_def transfers_only_reply_def get_agents_def
        process_agent_def get_agent_availability_def init_monitor_def tracking_7_def py_int_def
        Let_def)


text \<open>
  C6, amended. Take a run of cycles in each of which the agent is listed and its
  availability says transfers_only (the snapshots being well formed and the agent not
  excluded). The start of the episode is the one the monitor already holds for the agent
  when it has an entry, and the time of the first cycle of the run when it has none; the
  first cycle records it, every later cycle of the run leaves it as it is, and in every
  cycle the active list holds, for each record of the agent, its name with the duration
  \<open>now - start\<close> for that one start.
\<close>

theorem started_at_fixed:
  assumes "\<forall>inp \<in> set (inp0 # inps). listed inp i \<and> in_transfers_only inp i \<and>
             (\<forall>a \<in> set (get_agents (users_response inp)). well_formed m a)"
      and "i \<notin> excluded_agents m"
  shows "fst (monitor_agents m (inp0 # inps)) = None \<and>
         length (snd (snd (monitor_agents m (inp0 # inps)))) = Suc (length inps) \<and>
         (\<forall>k \<le> length inps.
            agent_status_times (monitor_after (snd (snd (monitor_agents m (inp0 # inps))) ! k)) i
              = Some (started_at m inp0 i) \<and>
            (\<forall>a \<in> set (get_agents (users_response ((inp0 # inps) ! k))). agent_id a = Some i \<longrightarrow>
               (\<exists>n. agent_name a = Some n \<and>
                    (n, now ((inp0 # inps) ! k) - started_at m inp0 i)
                      \<in> set (active (snd (snd (monitor_agents m (inp0 # inps))) ! k))))) \<and>
         (agent_status_times m i = None \<longrightarrow> started_at m inp0 i = now inp0) \<and>
         (\<forall>t. agent_status_times m i = Some t \<longrightarrow> started_at m inp0 i = t)"
proof -
  let ?r = "monitor_cycle m inp0"
  let ?t0 = "started_at m inp0 i"
  have wf: "\<forall>inp \<in> set (inp0 # inps). \<forall>a \<in> set (get_agents (users_response inp)). well_formed m a"
    using assms(1) by simp
  have none: "fst (monitor_agents m (inp0 # inps)) = None"
    using monitor_agents_raises[of m "inp0 # inps"] wf by blast
  have len: "length (snd (snd (monitor_agents m (inp0 # inps)))) = Suc (length inps)"
    using monitor_agents_length[OF none] by simp
  have here: "listed inp0 i" "in_transfers_only inp0 i"
     "\<forall>a \<in> set (get_agents (users_response inp0)). well_formed m a"
    using assms(1) by simp_all
  note w = monitor_cycle_watched[OF here(1,2) assms(2) here(3)]
  from w have ok: "raised ?r = None" by simp
  have run: "snd (snd (monitor_agents m (inp0 # inps))) =
      ?r # snd (snd (monitor_agents (monitor_after ?r) inps))"
    by (simp only: monitor_agents_Cons[OF ok, of inps] snd_conv)
  have ex: "excluded_agents (monitor_after ?r) = excluded_agents m"
    using monitor_cycle_config[of m inp0] by simp
  have p1: "\<forall>inp \<in> set inps. listed inp i \<and> in_transfers_only inp i \<and>
             (\<forall>a \<in> set (get_agents (users_response inp)). well_formed (monitor_after ?r) a)"
    using assms(1) well_formed_cong[OF ex] by simp
  have p2: "i \<notin> excluded_agents (monitor_after ?r)" using ex assms(2) by simp
  have p3: "agent_status_times (monitor_after ?r) i = Some ?t0" using w by simp
  have steps: "agent_status_times (monitor_after (snd (snd (monitor_agents m (inp0 # inps))) ! k)) i
              = Some ?t0 \<and>
        (\<forall>a \<in> set (get_agents (users_response ((inp0 # inps) ! k))). agent_id a = Some i \<longrightarrow>
               (\<exists>n. agent_name a = Some n \<and>
                    (n, now ((inp0 # inps) ! k) - ?t0)
                      \<in> set (active (snd (snd (monitor_agents m (inp0 # inps))) ! k))))"
    if k: "k \<le> length inps" for k
  proof (cases k)
    case 0
    with w show ?thesis by (simp add: run del: monitor_agents.simps)
  next
    case (Suc k')
    with k have "k' < length inps" by simp
    from monitor_agents_watched[OF p1 p2 p3 this] Suc show ?thesis
      by (simp add: run del: monitor_agents.simps)
  qed
  have s1: "agent_status_times m i = None \<longrightarrow> ?t0 = now inp0"
    by (simp add: started_at_def)
  have s2: "\<forall>t. agent_status_times m i = Some t \<longrightarrow> ?t0 = t"
    by (simp add: started_at_def)
  from none len steps s1 s2 show ?thesis by blast
qed

theorem started_at_fixed_witness:
  "agent_status_times tracking_7 7 = Some 0 \<and>
   agent_status_times (monitor_after (snd (snd (monitor_agents tracking_7
       [poll 900 [mk_agent 7 ''G''] transfers_only_reply,
        poll 960 [mk_agent 7 ''G''] transfers_only_reply])) ! 1)) 7 = Some 0 \<and>
   (''G'', 960) \<in> set (active (snd (snd (monitor_agents tracking_7
       [poll 900 [mk_agent 7 ''G''] transfers_only_reply,
        poll 960 [mk_agent 7 ''G''] transfers_only_reply])) ! 1))"
proof -
  let ?p0 = "poll 900 [mk_agent 7 ''G''] transfers_only_reply"
  let ?ps = "[poll 960 [mk_agent 7 ''G''] transfers_only_reply]"
  have h1: "\<forall>inp \<in> set (?p0 # ?ps). listed inp 7 \<and> in_transfers_only inp 7 \<and>
             (\<forall>a \<in> set (get_agents (users_response inp)). well_formed tracking_7 a)"
    by (simp add: listed_def in_transfers_only_def well_formed_def poll_def mk_agent_def
        get_agents_def get_agent_availability_def transfers_only_reply_def)
  have h2: "7 \<notin> excluded_agents tracking_7" by (simp add: tracking_7_def init_monitor_def)
  have h3: "agent_status_times tracking_7 7 = Some 0" by (simp add: tracking_7_def)
  note t = started_at_fixed[OF h1 h2]
  have le: "1 \<le> length ?ps" by simp
  note k1 = t[THEN conjunct2, THEN conjunct2, THEN conjunct1, rule_format, OF le]
  have st: "started_at tracking_7 ?p0 7 = 0" using h3 by (simp add: started_at_def)
  have a: "mk_agent 7 ''G'' \<in> set (get_agents (users_response ((?p0 # ?ps) ! 1)))"
    by (simp add: poll_def get_agents_def)
  have b: "agent_id (mk_agent 7 ''G'') = Some 7" "agent_name (mk_agent 7 ''G'') = Some ''G''"
    by (simp_all add: mk_agent_def)
  have c: "now ((?p0 # ?ps) ! 1) - 0 = 960" by (simp add: poll_def)
  from conjunct2[OF k1, rule_format, OF a b(1)] b(2)
  have "(''G'', now ((?p0 # ?ps) ! 1) - started_at tracking_7 ?p0 7)
      \<in> set (active (snd (snd (monitor_agents tracking_7 (?p0 # ?ps))) ! 1))"
    by (simp del: monitor_agents.simps)
  with conjunct1[OF k1] c h3 show ?thesis by (simp add: st del: monitor_agents.simps)
qed

text \<open>
  C7. Three cycles: the agent is seen in another state, then in transfers_only, then in
  transfers_only again once the threshold has passed since the second cycle. Whatever
  episode and ledger entry the agent had before, the first cycle deletes both; the second
  cycle starts a new episode at its own time, not alerted; the third cycle keeps that
  start, sends an alert with the duration counted from it, and puts the agent in the
  ledger.
\<close>

theorem fresh_episode_after_break:
  assumes "listed inp1 i \<and> in_other_state inp1 i"
      and "listed inp2 i \<and> in_transfers_only inp2 i"
      and "listed inp3 i \<and> in_transfers_only inp3 i"
      and "\<forall>inp \<in> set [inp1, inp2, inp3].
             \<forall>a \<in> set (get_agents (users_response inp)). well_formed m a"
      and "i \<notin> excluded_agents m"
      and "0 < alert_threshold m" and "alert_threshold m \<le> now inp3 - now inp2"
  shows "\<exists>r1 r2 r3.
           monitor_agents m [inp1, inp2, inp3] = (None, monitor_after r3, [r1, r2, r3]) \<and>
           agent_status_times (monitor_after r1) i = None \<and>
           i \<notin> alerted_agents (monitor_after r1) \<and>
           agent_status_times (monitor_after r2) i = Some (now inp2) \<and>
           i \<notin> alerted_agents (monitor_after r2) \<and>
           agent_status_times (monitor_after r3) i = Some (now inp2) \<and>
           i \<in> alerted_agents (monitor_after r3) \<and>
           (\<exists>a \<in> set (get_agents (users_response inp3)). agent_id a = Some i \<and>
              (\<exists>n. agent_name a = Some n \<and> (n, py_int (now inp3 - now inp2)) \<in> set (alerts r3)))"
proof -
  let ?r1 = "monitor_cycle m inp1"
  let ?m1 = "monitor_after ?r1"
  let ?r2 = "monitor_cycle ?m1 inp2"
  let ?m2 = "monitor_after ?r2"
  let ?r3 = "monitor_cycle ?m2 inp3"
  have wf: "\<forall>a \<in> set (get_agents (users_response inp1)). well_formed m a"
           "\<forall>a \<in> set (get_agents (users_response inp2)). well_formed m a"
           "\<forall>a \<in> set (get_agents (users_response inp3)). well_formed m a"
    using assms(4) by simp_all
  note c1 = monitor_cycle_config[of m inp1]
  note c2 = monitor_cycle_config[of ?m1 inp2]
  have ex1: "excluded_agents ?m1 = excluded_agents m" using c1 by simp
  have ex2: "excluded_agents ?m2 = excluded_agents m" using c1 c2 by simp
  have th1: "alert_threshold ?m1 = alert_threshold m" using c1 by simp
  have th2: "alert_threshold ?m2 = alert_threshold m" using c1 c2 by simp
  from monitor_cycle_other[OF conjunct1[OF assms(1)] conjunct2[OF assms(1)] assms(5) wf(1)]
  have o: "raised ?r1 = None" "agent_status_times ?m1 i = None" "i \<notin> alerted_agents ?m1"
    by simp_all
  have wf2: "\<forall>a \<in> set (get_agents (users_response inp2)). well_formed ?m1 a"
    using wf(2) well_formed_cong[OF ex1] by simp
  have nex1: "i \<notin> excluded_agents ?m1" using ex1 assms(5) by simp
  have st2: "started_at ?m1 inp2 i = now inp2" using o(2) by (simp add: started_at_def)
  from monitor_cycle_watched[OF conjunct1[OF assms(2)] conjunct2[OF assms(2)] nex1 wf2,
         unfolded st2 th1] o assms(6)
  have w2: "raised ?r2 = None" "agent_status_times ?m2 i = Some (now inp2)"
           "i \<notin> alerted_agents ?m2"
    by simp_all
  have wf3: "\<forall>a \<in> set (get_agents (users_response inp3)). well_formed ?m2 a"
    using wf(3) well_formed_cong[OF ex2] by simp
  have nex2: "i \<notin> excluded_agents ?m2" using ex2 assms(5) by simp
  have st3: "started_at ?m2 inp3 i = now inp2" using w2(2) by (simp add: started_at_def)
  from monitor_cycle_watched[OF conjunct1[OF assms(3)] conjunct2[OF assms(3)] nex2 wf3,
         unfolded st3 th2] w2 assms(7)
  have w3: "raised ?r3 = None" "agent_status_times (monitor_after ?r3) i = Some (now inp2)"
           "i \<in> alerted_agents (monitor_after ?r3)"
           "\<exists>a \<in> set (get_agents (users_response inp3)). agent_id a = Some i \<and>
              (\<exists>n. agent_name a = Some n \<and> (n, py_int (now inp3 - now inp2)) \<in> set (alerts ?r3))"
    by simp_all
  have run: "monitor_agents m [inp1, inp2, inp3] = (None, monitor_after ?r3, [?r1, ?r2, ?r3])"
    using o(1) w2(1) w3(1) by (simp add: Let_def)
  from run o w2 w3 show ?thesis by blast
qed

theorem fresh_episode_after_break_witness:
  "agent_status_times tracking_7 7 = Some 0 \<and> 7 \<in> alerted_agents tracking_7 \<and>
   agent_status_times (fst (snd (monitor_agents tracking_7
      [poll 650 [mk_agent 7 ''G''] online_reply,
       poll 700 [mk_agent 7 ''G''] transfers_only_reply,
       poll 1300 [mk_agent 7 ''G''] transfers_only_reply]))) 7 = Some 700 \<and>
   (''G'', 600) \<in> set (alerts (last (snd (snd (monitor_agents tracking_7
      [poll 650 [mk_agent 7 ''G''] online_reply,
       poll 700 [mk_agent 7 ''G''] transfers_only_reply,
       poll 1300 [mk_agent 7 ''G''] transfers_only_reply])))))"
proof -
  let ?p1 = "poll 650 [mk_agent 7 ''G''] online_reply"
  let ?p2 = "poll 700 [mk_agent 7 ''G''] transfers_only_reply"
  let ?p3 = "poll 1300 [mk_agent 7 ''G''] transfers_only_reply"
  have h1: "listed ?p1 7 \<and> in_other_state ?p1 7"
    by (simp add: listed_def in_other_state_def poll_def mk_agent_def get_agents_def
        get_agent_availability_def online_reply_def)
  have h2: "listed ?p2 7 \<and> in_transfers_only ?p2 7"
    by (simp add: listed_def in_transfers_only_def poll_def mk_agent_def get_agents_def
        get_agent_availability_def transfers_only_reply_def)
  have h3: "listed ?p3 7 \<and> in_transfers_only ?p3 7"
    by (simp add: listed_def in_transfers_only_def poll_def mk_agent_def get_agents_def
        get_agent_availability_def transfers_only_reply_def)
  have h4: "\<forall>inp \<in> set [?p1, ?p2, ?p3].
             \<forall>a \<in> set (get_agents (users_response inp)). well_formed tracking_7 a"
    by (simp add: well_formed_def poll_def mk_agent_def get_agents_def)
  have h5: "7 \<notin> excluded_agents tracking_7" by (simp add: tracking_7_def init_monitor_def)
  have h6: "0 < alert_threshold tracking_7" by (simp add: tracking_7_def init_monitor_def)
  have h7: "alert_threshold tracking_7 \<le> now ?p3 - now ?p2"
    by (simp add: tracking_7_def init_monitor_def poll_def)
  from fresh_episode_after_break[OF h1 h2 h3 h4 h5 h6 h7]
  obtain r1 r2 r3 where
    run: "monitor_agents tracking_7 [?p1, ?p2, ?p3] = (None, monitor_after r3, [r1, r2, r3])" and
    st: "agent_status_times (monitor_after r3) 7 = Some (now ?p2)" and
    al: "\<exists>a \<in> set (get_agents (users_response ?p3)). agent_id a = Some 7 \<and>
              (\<exists>n. agent_name a = Some n \<and> (n, py_int (now ?p3 - now ?p2)) \<in> set (alerts r3))"
    by blast
  have d: "py_int (now ?p3 - now ?p2) = 600" by (simp add: poll_def py_int_def)
  have n2: "now ?p2 = 700" by (simp add: poll_def)
  from al have "(''G'', 600) \<in> set (alerts r3)"
    unfolding d by (simp add: poll_def get_agents_def mk_agent_def)
  moreover have "agent_status_times tracking_7 7 = Some 0 \<and> 7 \<in> alerted_agents tracking_7"
    by (simp add: tracking_7_def)
  ultimately show ?thesis unfolding run using st n2 by simp
qed

text \<open>
  C5. At most one alert is sent per continuous episode. In a run of cycles in none of
  which the agent is seen in another status, started in any state and whatever the times
  of the polls and the other records of the snapshots, at most one call to
  \<^verbatim>\<open>send_slack_alert\<close> is made for the agent. A cycle that lists the agent in
  transfers_only makes exactly one such call when no alert is outstanding for the episode
  and the duration has reached the threshold, and none otherwise; when the snapshot holds
  records of that agent only, this count is the number of alerts of the cycle. In the
  scenario (agent A in transfers_only from time 0, a poll every 60 seconds, threshold
  600), however many cycles are run, none raises, the cycle at time 600 sends one alert
  for A with duration 600, no other cycle sends an alert, and cycle \<open>k\<close> lists A as
  active for \<open>60 * k\<close> seconds.
\<close>

theorem one_alert_per_episode:
  "((\<forall>inp \<in> set inps. \<not> in_other_state inp i) \<longrightarrow> run_alerts_for i m inps \<le> 1) \<and>
   (listed inp i \<and> in_transfers_only inp i \<and> i \<notin> excluded_agents m \<and>
    (\<forall>a \<in> set (get_agents (users_response inp)). well_formed m a) \<longrightarrow>
      cycle_alerts_for i m inp = (if armed m inp i then 1 else 0)) \<and>
   ((\<forall>a \<in> set (get_agents (users_response inp)). agent_id a = Some i) \<longrightarrow>
      length (alerts (monitor_cycle m inp)) = cycle_alerts_for i m inp) \<and>
   fst (monitor_agents (init_monitor {}) (scenario_polls n)) = None \<and>
   map alerts (snd (snd (monitor_agents (init_monitor {}) (scenario_polls n))))
     = map (\<lambda>k. if k = 10 then [(''A'', 600)] else []) [0..<n] \<and>
   map active (snd (snd (monitor_agents (init_monitor {}) (scenario_polls n))))
     = map (\<lambda>k. [(''A'', 60 * real k)]) [0..<n]"
proof -
  obtain e s t al where fields:
    "for_agents inp (get_agents (users_response inp)) (m, [], []) = (e, s, t, al)"
    by (cases "for_agents inp (get_agents (users_response inp)) (m, [], [])") auto
  have a: "(\<forall>inp \<in> set inps. \<not> in_other_state inp i) \<longrightarrow> run_alerts_for i m inps \<le> 1"
  proof
    assume "\<forall>inp \<in> set inps. \<not> in_other_state inp i"
    from run_alerts_bound[OF this, of m] show "run_alerts_for i m inps \<le> 1"
      by (simp split: if_splits)
  qed
  have b: "listed inp i \<and> in_transfers_only inp i \<and> i \<notin> excluded_agents m \<and>
    (\<forall>a \<in> set (get_agents (users_response inp)). well_formed m a) \<longrightarrow>
      cycle_alerts_for i m inp = (if armed m inp i then 1 else 0)"
  proof
    assume h: "listed inp i \<and> in_transfers_only inp i \<and> i \<notin> excluded_agents m \<and>
      (\<forall>a \<in> set (get_agents (users_response inp)). well_formed m a)"
    then have "loop_alerts_for i inp (get_agents (users_response inp)) (m, [], []) =
      (if (\<exists>a \<in> set (get_agents (users_response inp)). agent_id a = Some i) \<and> armed m inp i
       then 1 else 0)"
      by (intro loop_alerts_watched[OF fields]) simp_all
    with h show "cycle_alerts_for i m inp = (if armed m inp i then 1 else 0)"
      by (simp add: cycle_alerts_for_def listed_def)
  qed
  have c: "(\<forall>a \<in> set (get_agents (users_response inp)). agent_id a = Some i) \<longrightarrow>
      length (alerts (monitor_cycle m inp)) = cycle_alerts_for i m inp"
  proof
    assume "\<forall>a \<in> set (get_agents (users_response inp)). agent_id a = Some i"
    from loop_alerts_all[OF fields this] monitor_cycle_eq[OF fields]
    show "length (alerts (monitor_cycle m inp)) = cycle_alerts_for i m inp"
      by (simp add: cycle_alerts_for_def)
  qed
  have d: "fst (monitor_agents (init_monitor {}) (scenario_polls n)) = None \<and>
   map alerts (snd (snd (monitor_agents (init_monitor {}) (scenario_polls n))))
     = map (\<lambda>k. if k = 10 then [(''A'', 600)] else []) [0..<n] \<and>
   map active (snd (snd (monitor_agents (init_monitor {}) (scenario_polls n))))
     = map (\<lambda>k. [(''A'', 60 * real k)]) [0..<n]"
    by (simp add: scenario_run scenario_report_def active_def)
  from a b c d show ?thesis by blast
qed

theorem one_alert_per_episode_witness:
  "run_alerts_for 1 (scenario_monitor 1)
     [poll (1201 / 2) [mk_agent 1 ''A''] transfers_only_reply,
      poll (1321 / 2) [mk_agent 1 ''A''] transfers_only_reply] \<le> 1 \<and>
   cycle_alerts_for 1 (scenario_monitor 1)
     (poll (1201 / 2) [mk_agent 1 ''A''] transfers_only_reply) = 1 \<and>
   length (alerts (monitor_cycle (scenario_monitor 1)
     (poll (1201 / 2) [mk_agent 1 ''A''] transfers_only_reply))) = 1 \<and>
   map alerts (snd (snd (monitor_agents (init_monitor {}) (scenario_polls 12))))
     = [[], [], [], [], [], [], [], [], [], [], [(''A'', 600)], []]"
proof -
  let ?p = "poll (1201 / 2) [mk_agent 1 ''A''] transfers_only_reply"
  let ?ps = "[?p, poll (1321 / 2) [mk_agent 1 ''A''] transfers_only_reply]"
  have h1: "\<forall>inp \<in> set ?ps. \<not> in_other_state inp 1"
    by (simp add: in_other_state_def poll_def get_agent_availability_def transfers_only_reply_def)
  have h2: "listed ?p 1 \<and> in_transfers_only ?p 1 \<and> 1 \<notin> excluded_agents (scenario_monitor 1) \<and>
    (\<forall>a \<in> set (get_agents (users_response ?p)). well_formed (scenario_monitor 1) a)"
    by (simp add: listed_def in_transfers_only_def well_formed_def poll_def mk_agent_def
        get_agents_def get_agent_availability_def transfers_only_reply_def scenario_monitor_def
        init_monitor_def)
  have h3: "armed (scenario_monitor 1) ?p 1"
    by (simp add: armed_def started_at_def scenario_monitor_def init_monitor_def poll_def)
  have h4: "\<forall>a \<in> set (get_agents (users_response ?p)). agent_id a = Some 1"
    by (simp add: poll_def get_agents_def mk_agent_def)
  have up: "[0..<12] = [0, 1, 2, 3, 4, 5, 6, 7, 8, 9, 10, 11::nat]" by (simp add: upt_rec)
  note t = one_alert_per_episode[of ?ps 1 "scenario_monitor 1" ?p 12]
  from t h1 have a: "run_alerts_for 1 (scenario_monitor 1) ?ps \<le> 1" by blast
  from t h2 h3 have b: "cycle_alerts_for 1 (scenario_monitor 1) ?p = 1" by simp
  from t h4 b have c: "length (alerts (monitor_cycle (scenario_monitor 1) ?p)) = 1" by simp
  from t have "map alerts (snd (snd (monitor_agents (init_monitor {}) (scenario_polls 12))))
     = map (\<lambda>k. if k = 10 then [(''A'', 600)] else []) [0..<12]" by blast
  then have d: "map alerts (snd (snd (monitor_agents (init_monitor {}) (scenario_polls 12))))
     = [[], [], [], [], [], [], [], [], [], [], [(''A'', 600)], []]"
    unfolding up by simp
  from a b c d show ?thesis by blast
qed


text \<open>
  C2, as the code has it: the monitor has alerted for agent 7, its alert is acknowledged,
  both Slack calls succeed, and the monitor is what it was: 7 is still in
  \<^verbatim>\<open>alerted_agents\<close>.
\<close>

theorem acknowledgment_counterexample:
  "7 \<in> alerted_agents tracking_7 \<and>
   handle_acknowledgment True (\<lambda>_. True)
     \<lparr>action_value = Some ''G'', user_id = Some ''U1'', channel_id = Some ''C1'',
      message_ts = Some ''1.0''\<rparr>
     \<lparr>the_monitor = tracking_7, slack_calls = []\<rparr>
   = Inr \<lparr>the_monitor = tracking_7,
          slack_calls = [ChatPostMessage ''C1'' ''1.0'' ''Alert acknowledged by <@U1>'',
                         ChatUpdate ''C1'' ''1.0''
                           ''Alert: Agent G has been in Transfers Only status for 10 minutes.'']\<rparr>"
  by (simp add: handle_acknowledgment_def acknowledgment_try_def tracking_7_def Let_def)

text \<open>
  C2, amended. The acknowledgment handler never raises, whatever the payload holds and
  whether or not the Slack calls succeed, and it leaves the monitor as it is: neither
  \<^verbatim>\<open>alerted_agents\<close> nor \<^verbatim>\<open>agent_status_times\<close> changes, for an agent with an
  outstanding alert as for one without.
\<close>

theorem acknowledgment_leaves_monitor:
  "\<exists>s'. handle_acknowledgment ack_ok client_ok body s = Inr s' \<and>
        the_monitor s' = the_monitor s"
proof (cases "acknowledgment_try ack_ok client_ok body s")
  case (Inl p)
  obtain e s1 where p: "p = (e, s1)" by (cases p) auto
  from acknowledgment_try_monitor(1)[OF Inl[unfolded p]] Inl p show ?thesis
    by (simp add: handle_acknowledgment_def)
next
  case (Inr s1)
  from acknowledgment_try_monitor(2)[OF Inr] Inr show ?thesis
    by (simp add: handle_acknowledgment_def)
qed

theorem acknowledgment_leaves_monitor_witness:
  "\<exists>s'. handle_acknowledgment True (\<lambda>_. True)
     \<lparr>action_value = Some ''nobody'', user_id = Some ''U1'', channel_id = None,
      message_ts = Some ''1.0''\<rparr>
     \<lparr>the_monitor = init_monitor {}, slack_calls = []\<rparr> = Inr s' \<and>
     alerted_agents (the_monitor s') = {}"
proof -
  from acknowledgment_leaves_monitor[of True "\<lambda>_. True"
     "\<lparr>action_value = Some ''nobody'', user_id = Some ''U1'', channel_id = None,
       message_ts = Some ''1.0''\<rparr>"
     "\<lparr>the_monitor = init_monitor {}, slack_calls = []\<rparr>"]
  show ?thesis by (auto simp: init_monitor_def)
qed

end
